theory Spec2Isabelle
  imports Main "HOL-Library.Word"
begin

chapter \<open>thread.cpp: four multiplication threads and one matrix generator\<close>

text \<open>
  The program keeps two global square matrices and their size \<open>currentN\<close>. Four worker threads
  (\<open>multiplicationThread\<close>) multiply the global matrices into a local result, then meet at a
  barrier made of one mutex (\<open>cv_mtx\<close>), one condition variable (\<open>cv\<close>) and the counter
  \<open>finishedCount\<close>. The generator thread (\<open>matrixGeneratorThread\<close>) waits until the counter is 4,
  doubles \<open>currentN\<close>, builds new matrices, installs them, resets the counter and wakes everybody.

  The embedding has two layers.
  \<^item> \<open>multiplyMatrices\<close> is a function on lists of 32-bit words. Its three loops are three recursive
    functions; every \<open>operator[]\<close> is a checked access, so an index outside a vector is the result
    \<open>None\<close> (in C++ it is undefined behaviour).
  \<^item> The threads are a transition system. A state holds the globals, the owner of the mutex and,
    for every thread, its program point and its locals; an event lets one thread execute the
    statement at its program point. A schedule is a list of events, and a state is reachable when
    a schedule leads to it from the state \<open>main\<close> leaves behind. Statements executed while holding
    the mutex and statements executed without it are separate steps, so every interleaving the
    scheduler can produce is a schedule. \<open>notify_one\<close> wakes an arbitrary waiter of the condition
    variable (the event names it), \<open>notify_all\<close> wakes all of them, and a waiter may also wake
    spuriously; a woken thread must take the mutex again and re-evaluate its predicate.

  C++ \<open>int\<close> is modelled as \<open>32 word\<close>: arithmetic wraps around, \<open>sint\<close> reads the value. Console
  output and the clock are left out. Memory is unbounded: an allocation fails only when the
  requested size is negative, which the \<open>vector\<close> constructor rejects with \<open>std::length_error\<close>. An
  allocation that fails for lack of memory (\<open>std::bad_alloc\<close>) would end the process in the same
  way, so the states the program reaches without a fault are among the states reachable here, and
  what is proved of every reachable state holds of them. Every state that is exhibited below holds
  matrices of at most 20 rows.

  A second embedding of \<open>multiplyMatrices\<close> takes its parameters as references into a store and
  treats signed overflow as undefined; it is used where a statement is about the function on
  arbitrary arguments.
\<close>

section \<open>Matrices and \<open>multiplyMatrices\<close> (lines 29--40)\<close>

text \<open>
  \<open>cint\<close> is the C++ type \<open>int\<close>; a \<open>matrix\<close> is a \<open>vector<vector<int>>\<close>: a list of rows, which
  need not have equal lengths.
\<close>

type_synonym cint = "32 word"

type_synonym matrix = "cint list list"

text \<open>
  \<open>v[i]\<close> on a vector: \<open>None\<close> stands for an index at or beyond \<open>v.size()\<close>. \<open>mat_at\<close> is the read
  \<open>M[i][j]\<close> and \<open>mat_set\<close> the assignment \<open>M[i][j] = v\<close>, which returns the updated matrix.
\<close>

definition vec_at :: "'a list \<Rightarrow> nat \<Rightarrow> 'a option" where
  "vec_at v i = (if i < length v then Some (v ! i) else None)"

definition mat_at :: "matrix \<Rightarrow> nat \<Rightarrow> nat \<Rightarrow> cint option" where
  "mat_at M i j = (case vec_at M i of None \<Rightarrow> None | Some row \<Rightarrow> vec_at row j)"

definition mat_set :: "matrix \<Rightarrow> nat \<Rightarrow> nat \<Rightarrow> cint \<Rightarrow> matrix option" where
  "mat_set M i j v =
     (case vec_at M i of
        None \<Rightarrow> None
      | Some row \<Rightarrow> (if j < length row then Some (M[i := row[j := v]]) else None))"

text \<open>
  The innermost loop, lines 33--36: \<open>sum_loop A B i j N k acc\<close> runs
  \<open>for (; k < N; ++k) sum += A[i][k] * B[k][j];\<close> from the counter value \<open>k\<close> with \<open>sum = acc\<close> and
  returns the final \<open>sum\<close>. The counters are natural numbers (they start at 0 and only grow);
  \<open>N\<close> is the value of the \<open>int\<close> parameter, which may be negative.
\<close>

function sum_loop :: "matrix \<Rightarrow> matrix \<Rightarrow> nat \<Rightarrow> nat \<Rightarrow> int \<Rightarrow> nat \<Rightarrow> cint \<Rightarrow> cint option" where
  "sum_loop A B i j N k acc =
     (if int k < N then
        (case mat_at A i k of
           None \<Rightarrow> None
         | Some a \<Rightarrow>
             (case mat_at B k j of
                None \<Rightarrow> None
              | Some b \<Rightarrow> sum_loop A B i j N (Suc k) (acc + a * b)))
      else Some acc)"
  by pat_completeness auto

termination
  by (relation "measure (\<lambda>(A, B, i, j, N, k, acc). nat (N - int k))") auto

text \<open>
  The middle loop, lines 32--38: for every \<open>j\<close> from the given one, compute the sum with the
  accumulator starting at 0 and store it in \<open>C[i][j]\<close>.
\<close>

function col_loop :: "matrix \<Rightarrow> matrix \<Rightarrow> matrix \<Rightarrow> nat \<Rightarrow> int \<Rightarrow> nat \<Rightarrow> matrix option" where
  "col_loop A B C i N j =
     (if int j < N then
        (case sum_loop A B i j N 0 0 of
           None \<Rightarrow> None
         | Some s \<Rightarrow>
             (case mat_set C i j s of
                None \<Rightarrow> None
              | Some C' \<Rightarrow> col_loop A B C' i N (Suc j)))
      else Some C)"
  by pat_completeness auto

termination
  by (relation "measure (\<lambda>(A, B, C, i, N, j). nat (N - int j))") auto

text \<open>
  The outer loop, lines 31--39.
\<close>

function row_loop :: "matrix \<Rightarrow> matrix \<Rightarrow> matrix \<Rightarrow> int \<Rightarrow> nat \<Rightarrow> matrix option" where
  "row_loop A B C N i =
     (if int i < N then
        (case col_loop A B C i N 0 of
           None \<Rightarrow> None
         | Some C' \<Rightarrow> row_loop A B C' N (Suc i))
      else Some C)"
  by pat_completeness auto

termination
  by (relation "measure (\<lambda>(A, B, C, N, i). nat (N - int i))") auto

text \<open>
  The three loop equations are applied by hand: each one mentions its own left-hand side.
\<close>

declare sum_loop.simps [simp del] col_loop.simps [simp del] row_loop.simps [simp del]

text \<open>
  \<open>multiplyMatrices(A, B, C, N)\<close>, lines 29--40, for a \<open>C\<close> that is not the same object as \<open>A\<close> or
  \<open>B\<close>: the function takes the three matrices as values, so a write to \<open>C\<close> does not change what is
  read from \<open>A\<close> and \<open>B\<close>. The result is the new contents of \<open>C\<close>, or \<open>None\<close> if some index was out of
  range. (The function on references follows in the next section.)
\<close>

definition multiplyMatrices :: "matrix \<Rightarrow> matrix \<Rightarrow> matrix \<Rightarrow> int \<Rightarrow> matrix option" where
  "multiplyMatrices A B C N = row_loop A B C N 0"

text \<open>
  The expression \<open>vector<vector<int>>(n, vector<int>(n, v))\<close> of lines 49, 104, 105, 123 and 124
  with an \<open>int\<close> \<open>n\<close>. A negative \<open>n\<close> converts to a size beyond \<open>max_size()\<close>, and the constructor
  throws \<open>std::length_error\<close>: that is the result \<open>None\<close>. For every other \<open>n\<close> the construction
  succeeds; \<open>std::bad_alloc\<close> is not modelled.
\<close>

definition new_matrix :: "int \<Rightarrow> cint \<Rightarrow> matrix option" where
  "new_matrix n v = (if n < 0 then None else Some (replicate (nat n) (replicate (nat n) v)))"

text \<open>
  \<open>dims_ok M N\<close>: the matrix has at least \<open>N\<close> rows, and each of the first \<open>N\<close> rows has at least
  \<open>N\<close> columns.
\<close>

definition dims_ok :: "matrix \<Rightarrow> int \<Rightarrow> bool" where
  "dims_ok M N = (N \<le> int (length M) \<and> (\<forall>row \<in> set (take (nat N) M). N \<le> int (length row)))"

section \<open>\<open>multiplyMatrices\<close> with its parameters as references\<close>

text \<open>
  Line 29 takes \<open>A\<close> and \<open>B\<close> by reference to const and \<open>C\<close> by reference, so a caller may pass one
  object for two parameters; and line 35 computes in \<open>int\<close>, where an overflow is undefined. The
  function \<open>multiplyMatrices\<close> above takes three values and wraps around: it describes a call in
  which \<open>C\<close> is an object of its own, as in line 55, the only call of the program, where \<open>C\<close> is a
  local of the worker. The functions of this section drop both simplifications. Objects live in a
  store, the parameters are addresses, so a write to \<open>C\<close> is seen by every later read of \<open>A\<close> or \<open>B\<close>
  at the same address; and undefined behaviour is a result of its own, with its cause.
\<close>

datatype undefined_behaviour = IndexOutOfRange | SignedOverflow

type_synonym store = "nat \<Rightarrow> matrix"

text \<open>
  \<open>store_of ms\<close>: the store whose objects 0, 1, ... are the given matrices; every other address
  holds an empty matrix. \<open>int_fits x\<close>: the integer \<open>x\<close> is a value of the type \<open>int\<close>.
\<close>

definition store_of :: "matrix list \<Rightarrow> store" where
  "store_of ms a = (if a < length ms then ms ! a else [])"

definition int_fits :: "int \<Rightarrow> bool" where
  "int_fits x \<longleftrightarrow> - (2 ^ 31) \<le> x \<and> x < 2 ^ 31"

text \<open>
  Lines 33--36 on the objects at the addresses \<open>a\<close> and \<open>b\<close>: the product \<open>A[i][k] * B[k][j]\<close> is
  computed first and then added to \<open>sum\<close>; either operation may overflow.
\<close>

function sum_loop_ref ::
  "store \<Rightarrow> nat \<Rightarrow> nat \<Rightarrow> nat \<Rightarrow> nat \<Rightarrow> int \<Rightarrow> nat \<Rightarrow> cint \<Rightarrow> undefined_behaviour + cint" where
  "sum_loop_ref st a b i j N k acc =
     (if int k < N then
        (case mat_at (st a) i k of
           None \<Rightarrow> Inl IndexOutOfRange
         | Some x \<Rightarrow>
             (case mat_at (st b) k j of
                None \<Rightarrow> Inl IndexOutOfRange
              | Some y \<Rightarrow>
                  (if int_fits (sint x * sint y) \<and> int_fits (sint acc + sint x * sint y)
                   then sum_loop_ref st a b i j N (Suc k) (acc + x * y)
                   else Inl SignedOverflow)))
      else Inr acc)"
  by pat_completeness auto

termination
  by (relation "measure (\<lambda>(st, a, b, i, j, N, k, acc). nat (N - int k))") auto

text \<open>
  Lines 32--38: the assignment \<open>C[i][j] = sum\<close> changes the object at the address \<open>c\<close>, and the next
  sum is computed in the changed store.
\<close>

function col_loop_ref ::
  "store \<Rightarrow> nat \<Rightarrow> nat \<Rightarrow> nat \<Rightarrow> nat \<Rightarrow> int \<Rightarrow> nat \<Rightarrow> undefined_behaviour + store" where
  "col_loop_ref st a b c i N j =
     (if int j < N then
        (case sum_loop_ref st a b i j N 0 0 of
           Inl u \<Rightarrow> Inl u
         | Inr s \<Rightarrow>
             (case mat_set (st c) i j s of
                None \<Rightarrow> Inl IndexOutOfRange
              | Some C' \<Rightarrow> col_loop_ref (st(c := C')) a b c i N (Suc j)))
      else Inr st)"
  by pat_completeness auto

termination
  by (relation "measure (\<lambda>(st, a, b, c, i, N, j). nat (N - int j))") auto

text \<open>
  Lines 31--39, and the whole function: the result is the store after the call.
\<close>

function row_loop_ref ::
  "store \<Rightarrow> nat \<Rightarrow> nat \<Rightarrow> nat \<Rightarrow> int \<Rightarrow> nat \<Rightarrow> undefined_behaviour + store" where
  "row_loop_ref st a b c N i =
     (if int i < N then
        (case col_loop_ref st a b c i N 0 of
           Inl u \<Rightarrow> Inl u
         | Inr st' \<Rightarrow> row_loop_ref st' a b c N (Suc i))
      else Inr st)"
  by pat_completeness auto

termination
  by (relation "measure (\<lambda>(st, a, b, c, N, i). nat (N - int i))") auto

declare sum_loop_ref.simps [simp del] col_loop_ref.simps [simp del] row_loop_ref.simps [simp del]

definition multiplyMatrices_ref ::
  "nat \<Rightarrow> nat \<Rightarrow> nat \<Rightarrow> int \<Rightarrow> store \<Rightarrow> undefined_behaviour + store" where
  "multiplyMatrices_ref a b c N st = row_loop_ref st a b c N 0"

text \<open>
  \<open>dot A B i j m\<close>: the sum of the first \<open>m\<close> products of row \<open>i\<close> of \<open>A\<close> and column \<open>j\<close> of \<open>B\<close>, as an
  integer. \<open>no_overflow A B i j n\<close>: in the computation of entry \<open>(i, j)\<close> over \<open>n\<close> terms every product
  and every partial sum is a value of \<open>int\<close>.
\<close>

definition dot :: "matrix \<Rightarrow> matrix \<Rightarrow> nat \<Rightarrow> nat \<Rightarrow> nat \<Rightarrow> int" where
  "dot A B i j m = (\<Sum>k<m. sint (A ! i ! k) * sint (B ! k ! j))"

definition no_overflow :: "matrix \<Rightarrow> matrix \<Rightarrow> nat \<Rightarrow> nat \<Rightarrow> nat \<Rightarrow> bool" where
  "no_overflow A B i j n \<longleftrightarrow>
     (\<forall>k<n. int_fits (sint (A ! i ! k) * sint (B ! k ! j)) \<and> int_fits (dot A B i j (Suc k)))"

section \<open>The threads as a transition system\<close>

text \<open>
  The threads: the workers \<open>Worker 0\<close>, ..., and the generator.
\<close>

datatype tid = Worker nat | Generator

text \<open>
  How the process can go wrong. \<open>LengthError\<close>: a \<open>vector\<close> constructor threw; no thread catches
  the exception, so \<open>std::terminate\<close> ends the process. \<open>OutOfBounds\<close>: \<open>multiplyMatrices\<close> indexed
  outside a vector.
\<close>

datatype fault = LengthError | OutOfBounds

text \<open>
  The program points of \<open>multiplicationThread\<close> (lines 43--79), named after the statement executed
  next:
  \<^item> \<open>W_read\<close>: \<open>int N_local = currentN;\<close> (line 46)
  \<^item> \<open>W_alloc\<close>: the construction of \<open>C\<close> (line 49)
  \<^item> \<open>W_mult\<close>: \<open>multiplyMatrices(globalA, globalB, C, N_local);\<close> (line 55)
  \<^item> \<open>W_lock\<close>: \<open>unique_lock<mutex> lk(cv_mtx);\<close> (line 69)
  \<^item> \<open>W_inc\<close>: \<open>finishedCount++;\<close> (line 70)
  \<^item> \<open>W_check\<close>: \<open>if (finishedCount == 4) cv.notify_one();\<close> (lines 72--74)
  \<^item> \<open>W_wait\<close>: inside \<open>cv.wait(lk, pred)\<close> (line 76), holding the mutex, about to evaluate the
    predicate \<open>finishedCount == 0\<close>
  \<^item> \<open>W_blocked\<close>: inside \<open>cv.wait\<close>, mutex released, blocked on the condition variable
  \<^item> \<open>W_woken\<close>: inside \<open>cv.wait\<close>, unblocked, about to take the mutex again
  \<^item> \<open>W_unlock\<close>: the end of the block (line 77), where \<open>lk\<close> releases the mutex
  \<^item> \<open>W_done\<close>: after the \<open>while (true)\<close> loop, where the function would return.
\<close>

datatype wpc = W_read | W_alloc | W_mult | W_lock | W_inc | W_check | W_wait | W_blocked
  | W_woken | W_unlock | W_done

text \<open>
  A worker: its program point and its locals \<open>N_local\<close> and \<open>C\<close> (here \<open>C_local\<close>).
\<close>

record worker =
  wpc :: wpc
  N_local :: cint
  C_local :: matrix

text \<open>
  The program points of \<open>matrixGeneratorThread\<close> (lines 82--119):
  \<^item> \<open>G_lock\<close>: \<open>unique_lock<mutex> lk(cv_mtx);\<close> (line 86)
  \<^item> \<open>G_wait\<close>, \<open>G_blocked\<close>, \<open>G_woken\<close>: inside \<open>cv.wait(lk, pred)\<close> (line 87) with the predicate
    \<open>finishedCount == 4\<close>, as for a worker
  \<^item> \<open>G_unlock\<close>: the end of the first block (line 88)
  \<^item> \<open>G_double\<close>: \<open>currentN *= 2;\<close> (line 91)
  \<^item> \<open>G_size\<close>: \<open>int newSize = currentN;\<close> (line 92)
  \<^item> \<open>G_newA\<close>, \<open>G_newB\<close>: the constructions of \<open>newA\<close> and \<open>newB\<close> (lines 104, 105)
  \<^item> \<open>G_lock2\<close>: \<open>unique_lock<mutex> lk(cv_mtx);\<close> (line 109)
  \<^item> \<open>G_setA\<close>, \<open>G_setB\<close>: \<open>globalA = move(newA);\<close> and \<open>globalB = move(newB);\<close> (lines 110, 111)
  \<^item> \<open>G_reset\<close>: \<open>finishedCount = 0;\<close> (line 114)
  \<^item> \<open>G_notify\<close>: \<open>cv.notify_all();\<close> (line 116)
  \<^item> \<open>G_unlock2\<close>: the end of the second block (line 117)
  \<^item> \<open>G_done\<close>: after the \<open>while (true)\<close> loop.
\<close>

datatype gpc = G_lock | G_wait | G_blocked | G_woken | G_unlock | G_double | G_size | G_newA
  | G_newB | G_lock2 | G_setA | G_setB | G_reset | G_notify | G_unlock2 | G_done

text \<open>
  The generator: its program point and its locals.
\<close>

record generator =
  gpc :: gpc
  newSize :: cint
  newA :: matrix
  newB :: matrix

text \<open>
  The globals of lines 19--26, the owner of \<open>cv_mtx\<close>, the threads, and the fault that ended the
  process, if any. The threads blocked on \<open>cv\<close> are those at \<open>W_blocked\<close> and \<open>G_blocked\<close>.
\<close>

record state =
  currentN :: cint
  globalA :: matrix
  globalB :: matrix
  finishedCount :: cint
  cv_mtx :: "tid option"
  workers :: "worker list"
  gen :: generator
  fault :: "fault option"

text \<open>
  \<open>Exec t\<close>: thread \<open>t\<close> executes the statement at its program point. \<open>Notify t u\<close>: thread \<open>t\<close>
  executes its \<open>notify_one\<close> and the condition variable unblocks the waiter \<open>u\<close>.
  \<open>Spurious u\<close>: the waiter \<open>u\<close> is unblocked without a notification.
\<close>

datatype event = Exec tid | Notify tid tid | Spurious tid

text \<open>
  Replacing worker \<open>i\<close>; whether a thread is blocked on the condition variable; whether any
  thread is.
\<close>

definition set_worker :: "nat \<Rightarrow> worker \<Rightarrow> state \<Rightarrow> state" where
  "set_worker i w s = s\<lparr>workers := (workers s)[i := w]\<rparr>"

definition blocked :: "tid \<Rightarrow> state \<Rightarrow> bool" where
  "blocked t s =
     (case t of
        Worker j \<Rightarrow> j < length (workers s) \<and> wpc (workers s ! j) = W_blocked
      | Generator \<Rightarrow> gpc (gen s) = G_blocked)"

definition any_blocked :: "state \<Rightarrow> bool" where
  "any_blocked s = (gpc (gen s) = G_blocked \<or> (\<exists>w \<in> set (workers s). wpc w = W_blocked))"

text \<open>
  Unblocking one waiter, and all waiters (\<open>notify_all\<close>).
\<close>

definition wake :: "tid \<Rightarrow> state \<Rightarrow> state" where
  "wake t s =
     (case t of
        Worker j \<Rightarrow> set_worker j ((workers s ! j)\<lparr>wpc := W_woken\<rparr>) s
      | Generator \<Rightarrow> s\<lparr>gen := (gen s)\<lparr>gpc := G_woken\<rparr>\<rparr>)"

definition wake_all :: "state \<Rightarrow> state" where
  "wake_all s =
     s\<lparr>workers := map (\<lambda>w. if wpc w = W_blocked then w\<lparr>wpc := W_woken\<rparr> else w) (workers s),
       gen := (if gpc (gen s) = G_blocked then (gen s)\<lparr>gpc := G_woken\<rparr> else gen s)\<rparr>"

text \<open>
  The condition of both \<open>while (true)\<close> loops (lines 44 and 83).
\<close>

definition loop_forever :: bool where
  "loop_forever = True"

text \<open>
  \<open>currentN *= 2\<close> (line 91), on a 32-bit \<open>int\<close>.
\<close>

definition double_size :: "cint \<Rightarrow> cint" where
  "double_size n = n * 2"

text \<open>
  One step of worker \<open>i\<close>. Taking the mutex is possible only when it is free. At \<open>W_check\<close> with
  \<open>finishedCount == 4\<close> the call \<open>notify_one\<close> has an effect if some thread is blocked; which
  thread it unblocks is the scheduler's choice, made by the event \<open>Notify\<close> (\<open>notify_one\<close> below),
  so \<open>Exec\<close> covers only the call without any waiter. At \<open>W_wait\<close> the predicate is evaluated: the
  wait returns if it holds, otherwise the thread releases the mutex and blocks.

  The call in line 55 is one step, which reads the global matrices as they are at that moment. The
  program reads them over a period of time, without the mutex; the two agree as long as no write
  to the matrices happens while a worker is at \<open>W_mult\<close>, which is part of what is proved below
  (the generator writes only while every worker is inside its wait).
\<close>

definition multiplicationThread :: "nat \<Rightarrow> state \<Rightarrow> state option" where
  "multiplicationThread i s =
     (let w = workers s ! i in
      case wpc w of
        W_read \<Rightarrow> Some (set_worker i (w\<lparr>N_local := currentN s, wpc := W_alloc\<rparr>) s)
      | W_alloc \<Rightarrow>
          (case new_matrix (sint (N_local w)) 0 of
             None \<Rightarrow> Some (s\<lparr>fault := Some LengthError\<rparr>)
           | Some c \<Rightarrow> Some (set_worker i (w\<lparr>C_local := c, wpc := W_mult\<rparr>) s))
      | W_mult \<Rightarrow>
          (case multiplyMatrices (globalA s) (globalB s) (C_local w) (sint (N_local w)) of
             None \<Rightarrow> Some (s\<lparr>fault := Some OutOfBounds\<rparr>)
           | Some c \<Rightarrow> Some (set_worker i (w\<lparr>C_local := c, wpc := W_lock\<rparr>) s))
      | W_lock \<Rightarrow>
          (if cv_mtx s = None
           then Some (set_worker i (w\<lparr>wpc := W_inc\<rparr>) (s\<lparr>cv_mtx := Some (Worker i)\<rparr>))
           else None)
      | W_inc \<Rightarrow>
          Some (set_worker i (w\<lparr>wpc := W_check\<rparr>) (s\<lparr>finishedCount := finishedCount s + 1\<rparr>))
      | W_check \<Rightarrow>
          (if finishedCount s = 4 \<and> any_blocked s then None
           else Some (set_worker i (w\<lparr>wpc := W_wait\<rparr>) s))
      | W_wait \<Rightarrow>
          (if finishedCount s = 0
           then Some (set_worker i (w\<lparr>wpc := W_unlock\<rparr>) s)
           else Some (set_worker i (w\<lparr>wpc := W_blocked\<rparr>) (s\<lparr>cv_mtx := None\<rparr>)))
      | W_blocked \<Rightarrow> None
      | W_woken \<Rightarrow>
          (if cv_mtx s = None
           then Some (set_worker i (w\<lparr>wpc := W_wait\<rparr>) (s\<lparr>cv_mtx := Some (Worker i)\<rparr>))
           else None)
      | W_unlock \<Rightarrow>
          Some (set_worker i (w\<lparr>wpc := (if loop_forever then W_read else W_done)\<rparr>)
                  (s\<lparr>cv_mtx := None\<rparr>))
      | W_done \<Rightarrow> None)"

text \<open>
  Worker \<open>i\<close> executes lines 72--74 when \<open>finishedCount\<close> is 4, and \<open>notify_one\<close> unblocks the
  waiter \<open>t\<close>. Any thread blocked on \<open>cv\<close> can be the one: a worker as well as the generator.
\<close>

definition notify_one :: "nat \<Rightarrow> tid \<Rightarrow> state \<Rightarrow> state option" where
  "notify_one i t s =
     (let w = workers s ! i in
      if wpc w = W_check \<and> finishedCount s = 4 \<and> blocked t s
      then Some (wake t (set_worker i (w\<lparr>wpc := W_wait\<rparr>) s))
      else None)"

text \<open>
  One step of the generator. After \<open>move\<close> the moved-from vector is taken to be empty.
\<close>

definition matrixGeneratorThread :: "state \<Rightarrow> state option" where
  "matrixGeneratorThread s =
     (let g = gen s in
      case gpc g of
        G_lock \<Rightarrow>
          (if cv_mtx s = None
           then Some (s\<lparr>cv_mtx := Some Generator, gen := g\<lparr>gpc := G_wait\<rparr>\<rparr>)
           else None)
      | G_wait \<Rightarrow>
          (if finishedCount s = 4
           then Some (s\<lparr>gen := g\<lparr>gpc := G_unlock\<rparr>\<rparr>)
           else Some (s\<lparr>cv_mtx := None, gen := g\<lparr>gpc := G_blocked\<rparr>\<rparr>))
      | G_blocked \<Rightarrow> None
      | G_woken \<Rightarrow>
          (if cv_mtx s = None
           then Some (s\<lparr>cv_mtx := Some Generator, gen := g\<lparr>gpc := G_wait\<rparr>\<rparr>)
           else None)
      | G_unlock \<Rightarrow> Some (s\<lparr>cv_mtx := None, gen := g\<lparr>gpc := G_double\<rparr>\<rparr>)
      | G_double \<Rightarrow> Some (s\<lparr>currentN := double_size (currentN s), gen := g\<lparr>gpc := G_size\<rparr>\<rparr>)
      | G_size \<Rightarrow> Some (s\<lparr>gen := g\<lparr>newSize := currentN s, gpc := G_newA\<rparr>\<rparr>)
      | G_newA \<Rightarrow>
          (case new_matrix (sint (newSize g)) 1 of
             None \<Rightarrow> Some (s\<lparr>fault := Some LengthError\<rparr>)
           | Some m \<Rightarrow> Some (s\<lparr>gen := g\<lparr>newA := m, gpc := G_newB\<rparr>\<rparr>))
      | G_newB \<Rightarrow>
          (case new_matrix (sint (newSize g)) 2 of
             None \<Rightarrow> Some (s\<lparr>fault := Some LengthError\<rparr>)
           | Some m \<Rightarrow> Some (s\<lparr>gen := g\<lparr>newB := m, gpc := G_lock2\<rparr>\<rparr>))
      | G_lock2 \<Rightarrow>
          (if cv_mtx s = None
           then Some (s\<lparr>cv_mtx := Some Generator, gen := g\<lparr>gpc := G_setA\<rparr>\<rparr>)
           else None)
      | G_setA \<Rightarrow> Some (s\<lparr>globalA := newA g, gen := g\<lparr>newA := [], gpc := G_setB\<rparr>\<rparr>)
      | G_setB \<Rightarrow> Some (s\<lparr>globalB := newB g, gen := g\<lparr>newB := [], gpc := G_reset\<rparr>\<rparr>)
      | G_reset \<Rightarrow> Some (s\<lparr>finishedCount := 0, gen := g\<lparr>gpc := G_notify\<rparr>\<rparr>)
      | G_notify \<Rightarrow> Some ((wake_all s)\<lparr>gen := g\<lparr>gpc := G_unlock2\<rparr>\<rparr>)
      | G_unlock2 \<Rightarrow>
          Some (s\<lparr>cv_mtx := None, gen := g\<lparr>gpc := (if loop_forever then G_lock else G_done)\<rparr>\<rparr>)
      | G_done \<Rightarrow> None)"

text \<open>
  One step of the whole program; \<open>None\<close> when the event is not enabled. Nothing runs after a fault.
\<close>

definition step :: "event \<Rightarrow> state \<Rightarrow> state option" where
  "step e s =
     (if fault s \<noteq> None then None
      else case e of
        Exec (Worker i) \<Rightarrow> (if i < length (workers s) then multiplicationThread i s else None)
      | Exec Generator \<Rightarrow> matrixGeneratorThread s
      | Notify (Worker i) t \<Rightarrow> (if i < length (workers s) then notify_one i t s else None)
      | Notify Generator t \<Rightarrow> None
      | Spurious t \<Rightarrow> (if blocked t s then Some (wake t s) else None))"

text \<open>
  The state after a schedule, if every event of it is enabled when its turn comes.
\<close>

fun run :: "event list \<Rightarrow> state \<Rightarrow> state option" where
  "run [] s = Some s"
| "run (e # es) s = (case step e s of None \<Rightarrow> None | Some s' \<Rightarrow> run es s')"

text \<open>
  \<open>main\<close> up to the creation of the threads (lines 121--134), with its two constants, the number of
  multiplication threads and the initial value of \<open>currentN\<close>, as parameters. It fills the global
  matrices and starts the threads; there is no other statement before line 129. A thread that has
  been created but has not run yet is a thread at its first program point, so the state after line
  134 also stands for the states in which some threads are not created yet.
\<close>

definition main_startup :: "nat \<Rightarrow> cint \<Rightarrow> state" where
  "main_startup nthreads n0 =
     (case new_matrix (sint n0) 1 of
        None \<Rightarrow>
          \<lparr>currentN = n0, globalA = [], globalB = [], finishedCount = 0, cv_mtx = None,
           workers = [], gen = \<lparr>gpc = G_lock, newSize = 0, newA = [], newB = []\<rparr>,
           fault = Some LengthError\<rparr>
      | Some a \<Rightarrow>
          (case new_matrix (sint n0) 2 of
             None \<Rightarrow>
               \<lparr>currentN = n0, globalA = a, globalB = [], finishedCount = 0, cv_mtx = None,
                workers = [], gen = \<lparr>gpc = G_lock, newSize = 0, newA = [], newB = []\<rparr>,
                fault = Some LengthError\<rparr>
           | Some b \<Rightarrow>
               \<lparr>currentN = n0, globalA = a, globalB = b, finishedCount = 0, cv_mtx = None,
                workers = replicate nthreads \<lparr>wpc = W_read, N_local = 0, C_local = []\<rparr>,
                gen = \<lparr>gpc = G_lock, newSize = 0, newA = [], newB = []\<rparr>,
                fault = None\<rparr>))"

text \<open>
  The constants of lines 127 and 19, and the initial state of the program as written.
\<close>

definition numMultiplicationThreads :: nat where
  "numMultiplicationThreads = 4"

definition initialN :: cint where
  "initialN = 10"

definition init :: state where
  "init = main_startup numMultiplicationThreads initialN"

section \<open>Concrete schedules\<close>

text \<open>
  The generator blocks in its wait first. Workers 0, 1 and 2 run one iteration and block. Worker 3
  runs its iteration, makes \<open>finishedCount\<close> 4, and its \<open>notify_one\<close> unblocks worker 0, which
  finds its predicate false and blocks again; worker 3 blocks too.
\<close>

definition lost_wakeup_schedule :: "event list" where
  "lost_wakeup_schedule =
     [Exec Generator, Exec Generator,
      Exec (Worker 0), Exec (Worker 0), Exec (Worker 0), Exec (Worker 0), Exec (Worker 0),
      Exec (Worker 0), Exec (Worker 0),
      Exec (Worker 1), Exec (Worker 1), Exec (Worker 1), Exec (Worker 1), Exec (Worker 1),
      Exec (Worker 1), Exec (Worker 1),
      Exec (Worker 2), Exec (Worker 2), Exec (Worker 2), Exec (Worker 2), Exec (Worker 2),
      Exec (Worker 2), Exec (Worker 2),
      Exec (Worker 3), Exec (Worker 3), Exec (Worker 3), Exec (Worker 3), Exec (Worker 3),
      Notify (Worker 3) (Worker 0), Exec (Worker 3),
      Exec (Worker 0), Exec (Worker 0)]"

text \<open>
  \<open>ready_schedule\<close>: all four workers run one iteration and block (the \<open>notify_one\<close> of worker 3
  unblocks worker 0) before the generator starts; then the generator takes the mutex, finds
  \<open>finishedCount == 4\<close> and releases the mutex. \<open>reset_schedule\<close> continues with the generator up to
  the replacement of \<open>globalB\<close>.
\<close>

definition ready_schedule :: "event list" where
  "ready_schedule =
     [Exec (Worker 0), Exec (Worker 0), Exec (Worker 0), Exec (Worker 0), Exec (Worker 0),
      Exec (Worker 0), Exec (Worker 0),
      Exec (Worker 1), Exec (Worker 1), Exec (Worker 1), Exec (Worker 1), Exec (Worker 1),
      Exec (Worker 1), Exec (Worker 1),
      Exec (Worker 2), Exec (Worker 2), Exec (Worker 2), Exec (Worker 2), Exec (Worker 2),
      Exec (Worker 2), Exec (Worker 2),
      Exec (Worker 3), Exec (Worker 3), Exec (Worker 3), Exec (Worker 3), Exec (Worker 3),
      Notify (Worker 3) (Worker 0), Exec (Worker 3),
      Exec Generator, Exec Generator, Exec Generator]"

definition reset_schedule :: "event list" where
  "reset_schedule =
     ready_schedule @
     [Exec Generator, Exec Generator, Exec Generator, Exec Generator, Exec Generator,
      Exec Generator, Exec Generator]"

text \<open>
  \<open>overtake_schedule\<close> continues \<open>reset_schedule\<close>: the generator resets the counter, wakes all
  workers and releases the mutex. Worker 0 takes the mutex first, leaves its wait, runs a complete
  second iteration and increments \<open>finishedCount\<close> to 1. Only then do workers 1, 2 and 3 get the
  mutex; they find \<open>finishedCount == 0\<close> false and block again. The generator blocks as well.
\<close>

definition overtake_schedule :: "event list" where
  "overtake_schedule =
     reset_schedule @
     [Exec Generator, Exec Generator, Exec Generator,
      Exec (Worker 0), Exec (Worker 0), Exec (Worker 0), Exec (Worker 0), Exec (Worker 0),
      Exec (Worker 0), Exec (Worker 0), Exec (Worker 0), Exec (Worker 0), Exec (Worker 0),
      Exec (Worker 1), Exec (Worker 1), Exec (Worker 2), Exec (Worker 2),
      Exec (Worker 3), Exec (Worker 3),
      Exec Generator, Exec Generator]"

section \<open>Program points and invariants\<close>

text \<open>
  The program points at which a thread owns the mutex.
\<close>

fun holds_lock :: "wpc \<Rightarrow> bool" where
  "holds_lock W_inc = True"
| "holds_lock W_check = True"
| "holds_lock W_wait = True"
| "holds_lock W_unlock = True"
| "holds_lock _ = False"

fun gen_holds_lock :: "gpc \<Rightarrow> bool" where
  "gen_holds_lock G_wait = True"
| "gen_holds_lock G_unlock = True"
| "gen_holds_lock G_setA = True"
| "gen_holds_lock G_setB = True"
| "gen_holds_lock G_reset = True"
| "gen_holds_lock G_notify = True"
| "gen_holds_lock G_unlock2 = True"
| "gen_holds_lock _ = False"

text \<open>
  \<open>signalled\<close>: the worker has incremented \<open>finishedCount\<close> and has not left its wait.
  \<open>awaiting\<close>: the worker is inside \<open>cv.wait\<close>. \<open>computing\<close>: the worker has read \<open>currentN\<close>
  and has not taken the mutex yet.
\<close>

fun signalled :: "wpc \<Rightarrow> bool" where
  "signalled W_check = True"
| "signalled W_wait = True"
| "signalled W_blocked = True"
| "signalled W_woken = True"
| "signalled _ = False"

fun awaiting :: "wpc \<Rightarrow> bool" where
  "awaiting W_wait = True"
| "awaiting W_blocked = True"
| "awaiting W_woken = True"
| "awaiting _ = False"

text \<open>
  \<open>before_reset\<close>: the generator's wait has returned and \<open>finishedCount\<close> is not reset yet.
  \<open>regenerating\<close>: from the return of the wait to the release of the mutex in line 117.
  \<open>installing\<close>: \<open>currentN\<close> is doubled and \<open>globalB\<close> is not replaced yet.
\<close>

fun before_reset :: "gpc \<Rightarrow> bool" where
  "before_reset G_unlock = True"
| "before_reset G_double = True"
| "before_reset G_size = True"
| "before_reset G_newA = True"
| "before_reset G_newB = True"
| "before_reset G_lock2 = True"
| "before_reset G_setA = True"
| "before_reset G_setB = True"
| "before_reset G_reset = True"
| "before_reset _ = False"

fun regenerating :: "gpc \<Rightarrow> bool" where
  "regenerating G_notify = True"
| "regenerating G_unlock2 = True"
| "regenerating p = before_reset p"

text \<open>
  The invariants. \<open>inv_mtx\<close>: there are four workers, and the mutex is owned by exactly the thread
  whose program point says so. \<open>inv_term\<close>: no thread has left its loop. \<open>inv_count\<close>: the counter
  is at most the number of workers that have signalled. \<open>inv_regen\<close>: while the generator
  regenerates, every worker is inside its wait, and the counter is 4 until it is reset.
\<close>

definition inv_mtx :: "state \<Rightarrow> bool" where
  "inv_mtx s \<longleftrightarrow>
     length (workers s) = 4 \<and>
     gen_holds_lock (gpc (gen s)) = (cv_mtx s = Some Generator) \<and>
     (\<forall>i<4. holds_lock (wpc (workers s ! i)) = (cv_mtx s = Some (Worker i))) \<and>
     (\<forall>i. cv_mtx s = Some (Worker i) \<longrightarrow> i < 4)"

definition inv_term :: "state \<Rightarrow> bool" where
  "inv_term s \<longleftrightarrow> gpc (gen s) \<noteq> G_done \<and> (\<forall>i<4. wpc (workers s ! i) \<noteq> W_done)"

definition inv_count :: "state \<Rightarrow> bool" where
  "inv_count s \<longleftrightarrow>
     unat (finishedCount s) \<le> length (filter (\<lambda>w. signalled (wpc w)) (workers s))"

definition inv_regen :: "state \<Rightarrow> bool" where
  "inv_regen s \<longleftrightarrow>
     (before_reset (gpc (gen s)) \<longrightarrow> finishedCount s = 4) \<and>
     (regenerating (gpc (gen s)) \<longrightarrow> (\<forall>i<4. awaiting (wpc (workers s ! i))))"

fun installing :: "gpc \<Rightarrow> bool" where
  "installing G_size = True"
| "installing G_newA = True"
| "installing G_newB = True"
| "installing G_lock2 = True"
| "installing G_setA = True"
| "installing G_setB = True"
| "installing _ = False"

fun computing :: "wpc \<Rightarrow> bool" where
  "computing W_alloc = True"
| "computing W_mult = True"
| "computing W_lock = True"
| "computing _ = False"

text \<open>
  \<open>slot_ok\<close>: \<open>currentN\<close> is not negative and the global matrices are the \<open>currentN\<close> x \<open>currentN\<close>
  matrices of ones and of twos. \<open>inv_slot\<close> says where this holds and what the generator's locals
  are in between; \<open>inv_locals\<close> relates a worker's locals to the globals; \<open>inv_safe\<close> says which
  faults can occur.
\<close>

definition slot_ok :: "state \<Rightarrow> bool" where
  "slot_ok s \<longleftrightarrow>
     0 \<le> sint (currentN s) \<and>
     globalA s = replicate (nat (sint (currentN s))) (replicate (nat (sint (currentN s))) 1) \<and>
     globalB s = replicate (nat (sint (currentN s))) (replicate (nat (sint (currentN s))) 2)"

definition inv_slot :: "state \<Rightarrow> bool" where
  "inv_slot s \<longleftrightarrow>
     (\<not> installing (gpc (gen s)) \<longrightarrow> slot_ok s) \<and>
     (installing (gpc (gen s)) \<and> gpc (gen s) \<noteq> G_size \<longrightarrow> newSize (gen s) = currentN s) \<and>
     (gpc (gen s) = G_newB \<or> gpc (gen s) = G_lock2 \<or> gpc (gen s) = G_setA \<longrightarrow>
        0 \<le> sint (currentN s) \<and>
        newA (gen s) =
          replicate (nat (sint (currentN s))) (replicate (nat (sint (currentN s))) 1)) \<and>
     (gpc (gen s) = G_lock2 \<or> gpc (gen s) = G_setA \<or> gpc (gen s) = G_setB \<longrightarrow>
        0 \<le> sint (currentN s) \<and>
        newB (gen s) =
          replicate (nat (sint (currentN s))) (replicate (nat (sint (currentN s))) 2)) \<and>
     (gpc (gen s) = G_setB \<longrightarrow>
        globalA s =
          replicate (nat (sint (currentN s))) (replicate (nat (sint (currentN s))) 1))"

definition inv_locals :: "state \<Rightarrow> bool" where
  "inv_locals s \<longleftrightarrow>
     (\<forall>i<4. (computing (wpc (workers s ! i)) \<longrightarrow> N_local (workers s ! i) = currentN s) \<and>
            (wpc (workers s ! i) = W_mult \<longrightarrow>
               C_local (workers s ! i) =
                 replicate (nat (sint (N_local (workers s ! i))))
                   (replicate (nat (sint (N_local (workers s ! i)))) 0)))"

definition inv_safe :: "state \<Rightarrow> bool" where
  "inv_safe s \<longleftrightarrow>
     fault s \<noteq> Some OutOfBounds \<and>
     (fault s = Some LengthError \<longrightarrow> gpc (gen s) = G_newA \<and> sint (currentN s) < 0)"

text \<open>
  All invariants together.
\<close>

definition invariant :: "state \<Rightarrow> bool" where
  "invariant s \<longleftrightarrow>
     inv_mtx s \<and> inv_term s \<and> inv_count s \<and> inv_regen s \<and> inv_slot s \<and> inv_locals s \<and>
     inv_safe s"

section \<open>Notions used by the claims\<close>

text \<open>
  A square matrix of dimension \<open>n\<close>; the contents of the shared slot; the steps that write it; the
  number of such steps, and of executions of line 91, along a schedule; and the condition under
  which the \<open>join\<close> calls of \<open>main\<close> (lines 137--140) all return.
\<close>

definition square :: "matrix \<Rightarrow> nat \<Rightarrow> bool" where
  "square M n \<longleftrightarrow> length M = n \<and> (\<forall>row \<in> set M. length row = n)"

definition slot :: "state \<Rightarrow> cint \<times> matrix \<times> matrix" where
  "slot s = (currentN s, globalA s, globalB s)"

definition slot_write :: "event \<Rightarrow> state \<Rightarrow> bool" where
  "slot_write e s \<longleftrightarrow>
     e = Exec Generator \<and>
     (gpc (gen s) = G_double \<or> gpc (gen s) = G_setA \<or> gpc (gen s) = G_setB)"

fun slot_writes :: "event list \<Rightarrow> state \<Rightarrow> nat" where
  "slot_writes [] s = 0"
| "slot_writes (e # es) s =
     (case step e s of
        None \<Rightarrow> 0
      | Some s' \<Rightarrow> (if slot_write e s then 1 else 0) + slot_writes es s')"

fun doublings :: "event list \<Rightarrow> state \<Rightarrow> nat" where
  "doublings [] s = 0"
| "doublings (e # es) s =
     (case step e s of
        None \<Rightarrow> 0
      | Some s' \<Rightarrow>
          (if e = Exec Generator \<and> gpc (gen s) = G_double then 1 else 0) + doublings es s')"

definition main_returned :: "state \<Rightarrow> bool" where
  "main_returned s \<longleftrightarrow>
     fault s = None \<and> list_all (\<lambda>w. wpc w = W_done) (workers s) \<and> gpc (gen s) = G_done"

text \<open>
  The number of times each worker has executed line 70 since \<open>finishedCount\<close> was last reset
  (or since the start): \<open>arrive\<close> updates the numbers for one step, \<open>arrivals\<close> along a schedule.
  \<open>inv_arrivals\<close> is the invariant that ties them to the state: no worker has arrived twice, a
  worker that has arrived is inside the barrier, and \<open>finishedCount\<close> is the number of arrivals.
\<close>

definition arrive :: "event \<Rightarrow> state \<Rightarrow> (nat \<Rightarrow> nat) \<Rightarrow> (nat \<Rightarrow> nat)" where
  "arrive e s a =
     (case e of
        Exec (Worker i) \<Rightarrow>
          (if i < length (workers s) \<and> wpc (workers s ! i) = W_inc then a(i := Suc (a i)) else a)
      | Exec Generator \<Rightarrow> (if gpc (gen s) = G_reset then (\<lambda>i. 0) else a)
      | Notify t u \<Rightarrow> a
      | Spurious u \<Rightarrow> a)"

fun arrivals :: "event list \<Rightarrow> state \<Rightarrow> (nat \<Rightarrow> nat) \<Rightarrow> (nat \<Rightarrow> nat)" where
  "arrivals [] s a = a"
| "arrivals (e # es) s a =
     (case step e s of None \<Rightarrow> a | Some s' \<Rightarrow> arrivals es s' (arrive e s a))"

definition inv_arrivals :: "state \<Rightarrow> (nat \<Rightarrow> nat) \<Rightarrow> bool" where
  "inv_arrivals s a \<longleftrightarrow>
     (\<forall>i<4. a i \<le> 1 \<and> (a i = 1 \<longrightarrow> signalled (wpc (workers s ! i)))) \<and>
     unat (finishedCount s) = (\<Sum>i<4. a i)"

text \<open>
  \<open>starved\<close>: the counter is 1, every worker is inside its wait and the generator is at or inside
  its wait.
\<close>

fun starved_worker :: "wpc \<Rightarrow> bool" where
  "starved_worker W_wait = True"
| "starved_worker W_blocked = True"
| "starved_worker W_woken = True"
| "starved_worker _ = False"

fun starved_generator :: "gpc \<Rightarrow> bool" where
  "starved_generator G_lock = True"
| "starved_generator G_wait = True"
| "starved_generator G_blocked = True"
| "starved_generator G_woken = True"
| "starved_generator _ = False"

definition starved :: "state \<Rightarrow> bool" where
  "starved s \<longleftrightarrow>
     finishedCount s = 1 \<and> starved_generator (gpc (gen s)) \<and>
     list_all (\<lambda>w. starved_worker (wpc w)) (workers s)"

text \<open>
  \<open>releasing\<close>: the generator has reset the counter and has not released the mutex yet (lines 116
  and 117). \<open>unnoticed\<close>: the counter is 4, the generator is blocked on the condition variable and
  every worker is inside its wait.
\<close>

fun releasing :: "gpc \<Rightarrow> bool" where
  "releasing G_notify = True"
| "releasing G_unlock2 = True"
| "releasing _ = False"

definition unnoticed :: "state \<Rightarrow> bool" where
  "unnoticed s \<longleftrightarrow>
     finishedCount s = 4 \<and> gpc (gen s) = G_blocked \<and>
     list_all (\<lambda>w. awaiting (wpc w)) (workers s)"

section \<open>Correctness of \<open>multiplyMatrices\<close>\<close>

lemma dims_ok_iff:
  "dims_ok M N \<longleftrightarrow> (\<forall>i. int i < N \<longrightarrow> i < length M \<and> N \<le> int (length (M ! i)))"
proof
  assume d: "dims_ok M N"
  show "\<forall>i. int i < N \<longrightarrow> i < length M \<and> N \<le> int (length (M ! i))"
  proof (intro allI impI)
    fix i assume i: "int i < N"
    from d have len: "N \<le> int (length M)" by (simp add: dims_ok_def)
    with i have il: "i < length M" by linarith
    from i il have "i < length (take (nat N) M)" by simp
    then have "take (nat N) M ! i \<in> set (take (nat N) M)" by (rule nth_mem)
    moreover from i have "take (nat N) M ! i = M ! i" by simp
    ultimately have "M ! i \<in> set (take (nat N) M)" by simp
    with d have "N \<le> int (length (M ! i))" by (simp add: dims_ok_def)
    with il show "i < length M \<and> N \<le> int (length (M ! i))" by simp
  qed
next
  assume a: "\<forall>i. int i < N \<longrightarrow> i < length M \<and> N \<le> int (length (M ! i))"
  have len: "N \<le> int (length M)"
  proof (cases "N \<le> 0")
    case True then show ?thesis by linarith
  next
    case False
    then have "int (nat N - 1) < N" by linarith
    with a have "nat N - 1 < length M" by blast
    with False show ?thesis by linarith
  qed
  moreover have "\<forall>row \<in> set (take (nat N) M). N \<le> int (length row)"
  proof
    fix row assume "row \<in> set (take (nat N) M)"
    then obtain i where i: "i < length (take (nat N) M)" and r: "row = take (nat N) M ! i"
      by (auto simp: in_set_conv_nth)
    from i have "int i < N" by auto
    with a have "N \<le> int (length (M ! i))" by blast
    with i r show "N \<le> int (length row)" by simp
  qed
  ultimately show "dims_ok M N" by (simp add: dims_ok_def)
qed

lemma sum_loop_Some:
  "i < length A \<Longrightarrow>
   (\<forall>k'. k \<le> k' \<and> int k' < N \<longrightarrow> k' < length (A ! i) \<and> k' < length B \<and> j < length (B ! k')) \<Longrightarrow>
   sum_loop A B i j N k acc = Some (acc + (\<Sum>k' = k..<nat N. A ! i ! k' * B ! k' ! j))"
proof (induction A B i j N k acc rule: sum_loop.induct)
  case (1 A B i j N k acc)
  show ?case
  proof (cases "int k < N")
    case False
    then have "{k..<nat N} = {}" by auto
    with False show ?thesis by (simp add: sum_loop.simps [of A B i j N k acc])
  next
    case True
    from "1.prems" True have b: "k < length (A ! i)" "k < length B" "j < length (B ! k)" by auto
    from "1.prems" have a: "mat_at A i k = Some (A ! i ! k)" "mat_at B k j = Some (B ! k ! j)"
      using b by (auto simp: mat_at_def vec_at_def)
    have ih: "sum_loop A B i j N (Suc k) (acc + A ! i ! k * B ! k ! j) =
        Some (acc + A ! i ! k * B ! k ! j + (\<Sum>k' = Suc k..<nat N. A ! i ! k' * B ! k' ! j))"
      using "1.IH" [OF True a(1) a(2)] "1.prems" by auto
    from True have "k < nat N" by linarith
    then have "(\<Sum>k' = k..<nat N. A ! i ! k' * B ! k' ! j) =
        A ! i ! k * B ! k ! j + (\<Sum>k' = Suc k..<nat N. A ! i ! k' * B ! k' ! j)"
      by (simp add: sum.atLeast_Suc_lessThan)
    with ih True a show ?thesis
      by (simp add: sum_loop.simps [of A B i j N k acc] add.assoc)
  qed
qed

lemma sum_loop_bounds:
  "sum_loop A B i j N k acc = Some r \<Longrightarrow> k \<le> k' \<Longrightarrow> int k' < N \<Longrightarrow>
   i < length A \<and> k' < length (A ! i) \<and> k' < length B \<and> j < length (B ! k')"
proof (induction A B i j N k acc rule: sum_loop.induct)
  case (1 A B i j N k acc)
  from "1.prems" have kN: "int k < N" by linarith
  from "1.prems"(1) kN obtain a b where
    a: "mat_at A i k = Some a" and b: "mat_at B k j = Some b"
    and rec: "sum_loop A B i j N (Suc k) (acc + a * b) = Some r"
    by (simp add: sum_loop.simps [of A B i j N k acc] split: option.splits)
  show ?case
  proof (cases "k' = k")
    case True
    with a b show ?thesis by (auto simp: mat_at_def vec_at_def split: option.splits if_splits)
  next
    case False
    with "1.prems" have "Suc k \<le> k'" by simp
    from "1.IH" [OF kN a b rec this "1.prems"(3)] show ?thesis .
  qed
qed

lemma mat_set_Some:
  "i < length C \<Longrightarrow> j < length (C ! i) \<Longrightarrow> mat_set C i j v = Some (C[i := (C ! i)[j := v]])"
  by (simp add: mat_set_def vec_at_def)

lemma mat_set_SomeD:
  "mat_set C i j v = Some C' \<Longrightarrow> i < length C \<and> j < length (C ! i) \<and> C' = C[i := (C ! i)[j := v]]"
  by (auto simp: mat_set_def vec_at_def split: option.splits if_splits)

lemma lt_imp_le_length: "(\<And>k. int k < N \<Longrightarrow> k < n) \<Longrightarrow> N \<le> int n"
proof (cases "N \<le> 0")
  case True then show ?thesis by linarith
next
  case False
  assume a: "\<And>k. int k < N \<Longrightarrow> k < n"
  from False have "int (nat N - 1) < N" by linarith
  then have "nat N - 1 < n" by (rule a)
  with False show ?thesis by linarith
qed

lemma sum_loop_dims:
  assumes A: "dims_ok A N" and B: "dims_ok B N" and i: "int i < N" and j: "int j < N"
  shows "sum_loop A B i j N 0 0 = Some (\<Sum>k = 0..<nat N. A ! i ! k * B ! k ! j)"
proof -
  from A i have iA: "i < length A" and rA: "N \<le> int (length (A ! i))"
    by (auto simp: dims_ok_iff)
  have "\<forall>k'. 0 \<le> k' \<and> int k' < N \<longrightarrow> k' < length (A ! i) \<and> k' < length B \<and> j < length (B ! k')"
  proof (intro allI impI)
    fix k' assume k: "0 \<le> k' \<and> int k' < N"
    with B have "k' < length B" "N \<le> int (length (B ! k'))" by (auto simp: dims_ok_iff)
    with k rA j show "k' < length (A ! i) \<and> k' < length B \<and> j < length (B ! k')" by linarith
  qed
  from sum_loop_Some [OF iA this, of 0] show ?thesis by simp
qed

lemma col_loop_Some:
  "dims_ok A N \<Longrightarrow> dims_ok B N \<Longrightarrow> int i < N \<Longrightarrow> i < length C \<Longrightarrow> N \<le> int (length (C ! i)) \<Longrightarrow>
   \<exists>C'. col_loop A B C i N j = Some C' \<and> map length C' = map length C \<and>
     (\<forall>r c. r < length C \<and> c < length (C ! r) \<longrightarrow>
        C' ! r ! c = (if r = i \<and> j \<le> c \<and> int c < N
                      then (\<Sum>k = 0..<nat N. A ! i ! k * B ! k ! c) else C ! r ! c))"
proof (induction A B C i N j rule: col_loop.induct)
  case (1 A B C i N j)
  show ?case
  proof (cases "int j < N")
    case False
    have c: "col_loop A B C i N j = Some C"
      using False by (subst col_loop.simps) simp
    have "\<And>c. j \<le> c \<Longrightarrow> \<not> int c < N" using False by linarith
    with c show ?thesis by fastforce
  next
    case True
    let ?s = "\<Sum>k = 0..<nat N. A ! i ! k * B ! k ! j"
    let ?C1 = "C[i := (C ! i)[j := ?s]]"
    have s: "sum_loop A B i j N 0 0 = Some ?s"
      using sum_loop_dims "1.prems" True by blast
    from True "1.prems" have jl: "j < length (C ! i)" by linarith
    have m: "mat_set C i j ?s = Some ?C1"
      using mat_set_Some "1.prems"(4) jl by blast
    have l1: "i < length ?C1" "N \<le> int (length (?C1 ! i))"
      using "1.prems" by simp_all
    from "1.IH" [OF True s m "1.prems"(1) "1.prems"(2) "1.prems"(3) l1]
    obtain C' where r: "col_loop A B ?C1 i N (Suc j) = Some C'"
      and sh: "map length C' = map length ?C1"
      and v: "\<forall>r c. r < length ?C1 \<and> c < length (?C1 ! r) \<longrightarrow>
        C' ! r ! c = (if r = i \<and> Suc j \<le> c \<and> int c < N
                      then (\<Sum>k = 0..<nat N. A ! i ! k * B ! k ! c) else ?C1 ! r ! c)"
      by blast
    have c: "col_loop A B C i N j = Some C'"
      using True s m r by (simp add: col_loop.simps [of A B C i N j])
    have sh1: "map length ?C1 = map length C"
      using "1.prems"(4) by (simp add: map_update list_update_same_conv)
    have "\<forall>r c. r < length C \<and> c < length (C ! r) \<longrightarrow>
        C' ! r ! c = (if r = i \<and> j \<le> c \<and> int c < N
                      then (\<Sum>k = 0..<nat N. A ! i ! k * B ! k ! c) else C ! r ! c)"
    proof (intro allI impI)
      fix r c assume rc: "r < length C \<and> c < length (C ! r)"
      then have rc1: "r < length ?C1 \<and> c < length (?C1 ! r)"
        by (cases "r = i") simp_all
      from v rc1 have e: "C' ! r ! c = (if r = i \<and> Suc j \<le> c \<and> int c < N
                      then (\<Sum>k = 0..<nat N. A ! i ! k * B ! k ! c) else ?C1 ! r ! c)"
        by blast
      show "C' ! r ! c = (if r = i \<and> j \<le> c \<and> int c < N
                      then (\<Sum>k = 0..<nat N. A ! i ! k * B ! k ! c) else C ! r ! c)"
      proof (cases "r = i")
        case False
        with e rc show ?thesis by simp
      next
        case ri: True
        show ?thesis
        proof (cases "c = j")
          case True
          with e ri rc \<open>int j < N\<close> show ?thesis by simp
        next
          case False
          with e ri rc show ?thesis by (auto simp: Suc_le_eq)
        qed
      qed
    qed
    with c sh sh1 show ?thesis by simp
  qed
qed

lemma dims_ok_shape: "map length C' = map length C \<Longrightarrow> dims_ok C' N = dims_ok C N"
proof -
  assume e: "map length C' = map length C"
  then have l: "length C' = length C" by (rule map_eq_imp_length_eq)
  have "\<And>i. i < length C \<Longrightarrow> length (C' ! i) = length (C ! i)"
  proof -
    fix i assume "i < length C"
    with l have "map length C' ! i = length (C' ! i)" "map length C ! i = length (C ! i)" by simp_all
    with e show "length (C' ! i) = length (C ! i)" by simp
  qed
  with l show ?thesis by (auto simp: dims_ok_iff)
qed

lemma row_loop_Some:
  "dims_ok A N \<Longrightarrow> dims_ok B N \<Longrightarrow> dims_ok C N \<Longrightarrow>
   \<exists>C'. row_loop A B C N i = Some C' \<and> map length C' = map length C \<and>
     (\<forall>r c. r < length C \<and> c < length (C ! r) \<longrightarrow>
        C' ! r ! c = (if i \<le> r \<and> int r < N \<and> int c < N
                      then (\<Sum>k = 0..<nat N. A ! r ! k * B ! k ! c) else C ! r ! c))"
proof (induction A B C N i rule: row_loop.induct)
  case (1 A B C N i)
  show ?case
  proof (cases "int i < N")
    case False
    have c: "row_loop A B C N i = Some C"
      using False by (subst row_loop.simps) simp
    have "\<And>r. i \<le> r \<Longrightarrow> \<not> int r < N" using False by linarith
    with c show ?thesis by fastforce
  next
    case True
    from "1.prems"(3) True have iC: "i < length C" "N \<le> int (length (C ! i))"
      by (auto simp: dims_ok_iff)
    from col_loop_Some [OF "1.prems"(1) "1.prems"(2) True iC, of 0]
    obtain C1 where c1: "col_loop A B C i N 0 = Some C1"
      and sh1: "map length C1 = map length C"
      and v1: "\<forall>r c. r < length C \<and> c < length (C ! r) \<longrightarrow>
        C1 ! r ! c = (if r = i \<and> 0 \<le> c \<and> int c < N
                      then (\<Sum>k = 0..<nat N. A ! i ! k * B ! k ! c) else C ! r ! c)"
      by blast
    from dims_ok_shape [OF sh1, of N] "1.prems"(3) have d1: "dims_ok C1 N" by simp
    from "1.IH" [OF True c1 "1.prems"(1) "1.prems"(2) d1]
    obtain C' where r: "row_loop A B C1 N (Suc i) = Some C'"
      and sh: "map length C' = map length C1"
      and v: "\<forall>r c. r < length C1 \<and> c < length (C1 ! r) \<longrightarrow>
        C' ! r ! c = (if Suc i \<le> r \<and> int r < N \<and> int c < N
                      then (\<Sum>k = 0..<nat N. A ! r ! k * B ! k ! c) else C1 ! r ! c)"
      by blast
    have c: "row_loop A B C N i = Some C'"
      using True c1 r by (simp add: row_loop.simps [of A B C N i])
    from sh1 have l1: "length C1 = length C" by (rule map_eq_imp_length_eq)
    have rl: "\<And>r. r < length C \<Longrightarrow> length (C1 ! r) = length (C ! r)"
    proof -
      fix r assume "r < length C"
      with l1 have "map length C1 ! r = length (C1 ! r)" "map length C ! r = length (C ! r)" by simp_all
      with sh1 show "length (C1 ! r) = length (C ! r)" by simp
    qed
    have "\<forall>r c. r < length C \<and> c < length (C ! r) \<longrightarrow>
        C' ! r ! c = (if i \<le> r \<and> int r < N \<and> int c < N
                      then (\<Sum>k = 0..<nat N. A ! r ! k * B ! k ! c) else C ! r ! c)"
    proof (intro allI impI)
      fix r c assume rc: "r < length C \<and> c < length (C ! r)"
      with l1 rl have rc1: "r < length C1 \<and> c < length (C1 ! r)" by simp
      from v rc1 have e: "C' ! r ! c = (if Suc i \<le> r \<and> int r < N \<and> int c < N
                      then (\<Sum>k = 0..<nat N. A ! r ! k * B ! k ! c) else C1 ! r ! c)" by blast
      from v1 rc have e1: "C1 ! r ! c = (if r = i \<and> 0 \<le> c \<and> int c < N
                      then (\<Sum>k = 0..<nat N. A ! i ! k * B ! k ! c) else C ! r ! c)" by blast
      show "C' ! r ! c = (if i \<le> r \<and> int r < N \<and> int c < N
                      then (\<Sum>k = 0..<nat N. A ! r ! k * B ! k ! c) else C ! r ! c)"
      proof (cases "r = i")
        case True
        with e e1 \<open>int i < N\<close> show ?thesis by simp
      next
        case False
        with e e1 show ?thesis by (auto simp: Suc_le_eq)
      qed
    qed
    with c sh sh1 show ?thesis by simp
  qed
qed

lemma col_loop_shape:
  "col_loop A B C i N j = Some C' \<Longrightarrow> map length C' = map length C"
proof (induction A B C i N j rule: col_loop.induct)
  case (1 A B C i N j)
  show ?case
  proof (cases "int j < N")
    case False
    with "1.prems" show ?thesis by (simp add: col_loop.simps [of A B C i N j])
  next
    case True
    with "1.prems" obtain s C1 where s: "sum_loop A B i j N 0 0 = Some s"
      and m: "mat_set C i j s = Some C1" and r: "col_loop A B C1 i N (Suc j) = Some C'"
      by (simp add: col_loop.simps [of A B C i N j] split: option.splits)
    from mat_set_SomeD [OF m] have "map length C1 = map length C"
      by (simp add: map_update list_update_same_conv)
    with "1.IH" [OF True s m r] show ?thesis by simp
  qed
qed

lemma col_loop_bounds:
  "col_loop A B C i N j = Some C' \<Longrightarrow> j \<le> j' \<Longrightarrow> int j' < N \<Longrightarrow>
   (\<exists>r. sum_loop A B i j' N 0 0 = Some r) \<and> i < length C \<and> j' < length (C ! i)"
proof (induction A B C i N j rule: col_loop.induct)
  case (1 A B C i N j)
  from "1.prems" have jN: "int j < N" by linarith
  with "1.prems"(1) obtain s C1 where s: "sum_loop A B i j N 0 0 = Some s"
    and m: "mat_set C i j s = Some C1" and r: "col_loop A B C1 i N (Suc j) = Some C'"
    by (simp add: col_loop.simps [of A B C i N j] split: option.splits)
  from mat_set_SomeD [OF m] have b: "i < length C" "j < length (C ! i)"
    and c1: "C1 = C[i := (C ! i)[j := s]]" by simp_all
  show ?case
  proof (cases "j' = j")
    case True
    with s b show ?thesis by simp
  next
    case False
    with "1.prems" have "Suc j \<le> j'" by simp
    from "1.IH" [OF jN s m r this "1.prems"(3)] c1 b show ?thesis by simp
  qed
qed

lemma row_loop_bounds:
  "row_loop A B C N i = Some C' \<Longrightarrow> i \<le> i' \<Longrightarrow> int i' < N \<Longrightarrow>
   \<exists>C1 C2. col_loop A B C1 i' N 0 = Some C2 \<and> map length C1 = map length C"
proof (induction A B C N i rule: row_loop.induct)
  case (1 A B C N i)
  from "1.prems" have iN: "int i < N" by linarith
  with "1.prems"(1) obtain C1 where c: "col_loop A B C i N 0 = Some C1"
    and r: "row_loop A B C1 N (Suc i) = Some C'"
    by (simp add: row_loop.simps [of A B C N i] split: option.splits)
  show ?case
  proof (cases "i' = i")
    case True
    with c show ?thesis by blast
  next
    case False
    with "1.prems" have "Suc i \<le> i'" by simp
    from "1.IH" [OF iN c r this "1.prems"(3)] col_loop_shape [OF c] show ?thesis by auto
  qed
qed

lemma multiplyMatrices_Some:
  assumes "dims_ok A N" and "dims_ok B N" and "dims_ok C N"
  shows "\<exists>C'. multiplyMatrices A B C N = Some C' \<and> map length C' = map length C \<and>
     (\<forall>i j. int i < N \<and> int j < N \<longrightarrow> C' ! i ! j = (\<Sum>k<nat N. A ! i ! k * B ! k ! j))"
proof -
  from row_loop_Some [OF assms, of 0] obtain C' where
    r: "row_loop A B C N 0 = Some C'" and sh: "map length C' = map length C"
    and v: "\<forall>r c. r < length C \<and> c < length (C ! r) \<longrightarrow>
        C' ! r ! c = (if 0 \<le> r \<and> int r < N \<and> int c < N
                      then (\<Sum>k = 0..<nat N. A ! r ! k * B ! k ! c) else C ! r ! c)"
    by blast
  have "\<forall>i j. int i < N \<and> int j < N \<longrightarrow> C' ! i ! j = (\<Sum>k<nat N. A ! i ! k * B ! k ! j)"
  proof (intro allI impI)
    fix i j assume ij: "int i < N \<and> int j < N"
    with assms(3) have "i < length C" "N \<le> int (length (C ! i))" by (auto simp: dims_ok_iff)
    with ij have "i < length C \<and> j < length (C ! i)" by linarith
    with v ij show "C' ! i ! j = (\<Sum>k<nat N. A ! i ! k * B ! k ! j)"
      by (simp add: atLeast0LessThan)
  qed
  with r sh show ?thesis by (simp add: multiplyMatrices_def)
qed

lemma multiplyMatrices_SomeD:
  assumes m: "multiplyMatrices A B C N = Some C'"
  shows "dims_ok A N \<and> dims_ok B N \<and> dims_ok C N"
proof -
  from m have r: "row_loop A B C N 0 = Some C'" by (simp add: multiplyMatrices_def)
  have cell: "i < length A \<and> k < length (A ! i) \<and> k < length B \<and> j < length (B ! k) \<and>
              i < length C \<and> j < length (C ! i)"
    if "int i < N" "int j < N" "int k < N" for i j k
  proof -
    from row_loop_bounds [OF r _ that(1)] obtain C1 C2 where
      c: "col_loop A B C1 i N 0 = Some C2" and sh: "map length C1 = map length C" by auto
    from col_loop_bounds [OF c _ that(2)] obtain s where
      s: "sum_loop A B i j N 0 0 = Some s" and b: "i < length C1" "j < length (C1 ! i)" by auto
    from sh have l: "length C1 = length C" by (rule map_eq_imp_length_eq)
    with b have "map length C1 ! i = length (C1 ! i)" "map length C ! i = length (C ! i)" by simp_all
    with sh have "length (C1 ! i) = length (C ! i)" by simp
    with b l sum_loop_bounds [OF s _ that(3)] show ?thesis by simp
  qed
  have "\<forall>i. int i < N \<longrightarrow> i < length A \<and> N \<le> int (length (A ! i))"
  proof (intro allI impI conjI)
    fix i assume i: "int i < N"
    from cell [OF i i i] show "i < length A" by simp
    show "N \<le> int (length (A ! i))"
      by (rule lt_imp_le_length) (use cell [OF i i] in simp)
  qed
  moreover have "\<forall>k. int k < N \<longrightarrow> k < length B \<and> N \<le> int (length (B ! k))"
  proof (intro allI impI conjI)
    fix k assume k: "int k < N"
    from cell [OF k k k] show "k < length B" by simp
    show "N \<le> int (length (B ! k))"
      by (rule lt_imp_le_length) (use cell [OF k _ k] in simp)
  qed
  moreover have "\<forall>i. int i < N \<longrightarrow> i < length C \<and> N \<le> int (length (C ! i))"
  proof (intro allI impI conjI)
    fix i assume i: "int i < N"
    from cell [OF i i i] show "i < length C" by simp
    show "N \<le> int (length (C ! i))"
      by (rule lt_imp_le_length) (use cell [OF i _ i] in simp)
  qed
  ultimately show ?thesis by (simp add: dims_ok_iff)
qed

lemma dims_ok_replicate: "dims_ok (replicate n (replicate n v)) (int n)"
  by (simp add: dims_ok_def)

lemma matrix_eq_replicate:
  assumes sh: "map length C = replicate n n"
    and v: "\<And>i j. i < n \<Longrightarrow> j < n \<Longrightarrow> C ! i ! j = v"
  shows "C = replicate n (replicate n v)"
proof (rule nth_equalityI)
  from sh have "length (map length C) = length (replicate n n)" by simp
  then show l: "length C = length (replicate n (replicate n v))" by simp
  fix i assume "i < length C"
  with l have i: "i < n" by simp
  with l have "map length C ! i = length (C ! i)" by simp
  with sh i have li: "length (C ! i) = n" by simp
  have "C ! i = replicate n v"
    by (rule nth_equalityI) (use li i v in simp_all)
  with i show "C ! i = replicate n (replicate n v) ! i" by simp
qed

lemma multiplyMatrices_fill:
  "multiplyMatrices (replicate n (replicate n a)) (replicate n (replicate n b))
      (replicate n (replicate n c)) (int n) = Some (replicate n (replicate n (of_nat n * (a * b))))"
proof -
  let ?A = "replicate n (replicate n a)" and ?B = "replicate n (replicate n b)"
  let ?C = "replicate n (replicate n c)"
  from multiplyMatrices_Some [OF dims_ok_replicate dims_ok_replicate dims_ok_replicate, of n a b c]
  obtain C' where m: "multiplyMatrices ?A ?B ?C (int n) = Some C'"
    and sh: "map length C' = map length ?C"
    and v: "\<forall>i j. int i < int n \<and> int j < int n \<longrightarrow> C' ! i ! j = (\<Sum>k<nat (int n). ?A ! i ! k * ?B ! k ! j)"
    by blast
  have "C' = replicate n (replicate n (of_nat n * (a * b)))"
  proof (rule matrix_eq_replicate)
    from sh show "map length C' = replicate n n" by simp
    fix i j assume "i < n" "j < n"
    with v show "C' ! i ! j = of_nat n * (a * b)" by simp
  qed
  with m show ?thesis by simp
qed

section \<open>Auxiliary facts about lists and words\<close>

lemma list_update_2: "(a # b # c # xs)[2 := x] = a # b # x # xs"
  by (simp add: numeral_2_eq_2)

lemma list_update_3: "(a # b # c # d # xs)[3 := x] = a # b # c # x # xs"
  by (simp add: numeral_3_eq_3)

lemma replicate4: "replicate 4 x = [x, x, x, x]"
  by (simp add: numeral_eq_Suc)

lemma filter_update_length:
  "i < length ws \<Longrightarrow>
   length (filter P (ws[i := w])) + (if P (ws ! i) then 1 else 0) =
   length (filter P ws) + (if P w then 1 else 0)"
proof (induction ws arbitrary: i)
  case Nil
  then show ?case by simp
next
  case (Cons a ws)
  show ?case
  proof (cases i)
    case 0
    then show ?thesis by simp
  next
    case (Suc j)
    with Cons.prems have "j < length ws" by simp
    from Cons.IH [OF this] Suc show ?thesis by simp
  qed
qed

lemma filter_full:
  "length ws \<le> length (filter P ws) \<Longrightarrow> i < length ws \<Longrightarrow> P (ws ! i)"
proof (rule ccontr)
  assume l: "length ws \<le> length (filter P ws)" and i: "i < length ws" and n: "\<not> P (ws ! i)"
  from i have "ws ! i \<in> set ws" by simp
  from this n have "length (filter P ws) < length ws" by (rule length_filter_less)
  with l show False by simp
qed

lemma filter_missing:
  "i < length ws \<Longrightarrow> \<not> P (ws ! i) \<Longrightarrow> length (filter P ws) < length ws"
  by (rule length_filter_less [of "ws ! i"]) simp_all

lemma unat_inc_le: "unat (c + 1 :: cint) \<le> Suc (unat c)"
  by (simp add: unat_word_ariths)

lemmas thread_defs = multiplicationThread_def matrixGeneratorThread_def notify_one_def
  set_worker_def blocked_def wake_def wake_all_def Let_def loop_forever_def

section \<open>Every step preserves the invariants\<close>

lemma inv_mtx_worker:
  assumes "inv_mtx s" and "i < length (workers s)" and "multiplicationThread i s = Some s'"
  shows "inv_mtx s'"
proof -
  from assms(1,2) have i4: "i < 4"
    and wi: "holds_lock (wpc (workers s ! i)) = (cv_mtx s = Some (Worker i))"
    by (simp_all add: inv_mtx_def)
  show ?thesis
    using assms wi i4
    by (cases "wpc (workers s ! i)")
       (auto simp: inv_mtx_def thread_defs nth_list_update split: option.splits if_splits)
qed

lemma inv_mtx_gen:
  assumes "inv_mtx s" and "matrixGeneratorThread s = Some s'"
  shows "inv_mtx s'"
  using assms
  by (cases "gpc (gen s)")
     (auto simp: inv_mtx_def thread_defs split: option.splits if_splits)

lemma inv_mtx_wake:
  assumes "inv_mtx s" and "blocked t s"
  shows "inv_mtx (wake t s)"
  using assms
  by (cases t) (auto simp: inv_mtx_def thread_defs nth_list_update)

lemma inv_mtx_notify:
  assumes "inv_mtx s" and "i < length (workers s)" and "notify_one i t s = Some s'"
  shows "inv_mtx s'"
proof -
  from assms(1,2) have i4: "i < 4"
    and wi: "holds_lock (wpc (workers s ! i)) = (cv_mtx s = Some (Worker i))"
    by (simp_all add: inv_mtx_def)
  show ?thesis
    using assms wi i4
    by (cases t) (auto simp: inv_mtx_def thread_defs nth_list_update split: if_splits)
qed

lemma step_cases:
  assumes "step e s = Some s'"
  obtains (worker) i where "e = Exec (Worker i)" "i < length (workers s)"
      "multiplicationThread i s = Some s'"
  | (generator) "e = Exec Generator" "matrixGeneratorThread s = Some s'"
  | (notify) i t where "e = Notify (Worker i) t" "i < length (workers s)"
      "notify_one i t s = Some s'"
  | (spurious) t where "e = Spurious t" "blocked t s" "s' = wake t s"
proof (cases e)
  case (Exec t)
  with assms worker generator show ?thesis
    by (cases t) (auto simp: step_def split: if_splits)
next
  case (Notify t t')
  with assms notify show ?thesis
    by (cases t) (auto simp: step_def split: if_splits)
next
  case (Spurious t)
  with assms spurious show ?thesis
    by (auto simp: step_def split: if_splits)
qed

lemma step_no_fault: "step e s = Some s' \<Longrightarrow> fault s = None"
  by (auto simp: step_def split: if_splits)

lemma inv_mtx_step:
  assumes "inv_mtx s" and "step e s = Some s'"
  shows "inv_mtx s'"
  using assms(2)
  by (cases rule: step_cases)
     (use assms(1) inv_mtx_worker inv_mtx_gen inv_mtx_notify inv_mtx_wake in blast)+

lemma inv_term_step:
  assumes "inv_mtx s" and "inv_term s" and "step e s = Some s'"
  shows "inv_term s'"
  using assms(3)
proof (cases rule: step_cases)
  case (worker i)
  with assms(1,2) show ?thesis
    by (cases "wpc (workers s ! i)")
       (auto simp: inv_mtx_def inv_term_def thread_defs nth_list_update split: option.splits if_splits)
next
  case generator
  with assms(1,2) show ?thesis
    by (cases "gpc (gen s)")
       (auto simp: inv_mtx_def inv_term_def thread_defs split: option.splits if_splits)
next
  case (notify i t)
  with assms(1,2) show ?thesis
    by (cases t)
       (auto simp: inv_mtx_def inv_term_def thread_defs nth_list_update split: if_splits)
next
  case (spurious t)
  with assms(1,2) show ?thesis
    by (cases t) (auto simp: inv_mtx_def inv_term_def thread_defs nth_list_update)
qed

lemma filter_update_count:
  "i < length ws \<Longrightarrow>
   length (filter P (ws[i := w])) =
     (if P w = P (ws ! i) then length (filter P ws)
      else if P w then Suc (length (filter P ws)) else length (filter P ws) - 1)"
  using filter_update_length [of i ws P w] by (simp split: if_splits)

lemma filter_wake_all:
  "((\<lambda>w. signalled (wpc w)) \<circ> (\<lambda>w. if wpc w = W_blocked then w\<lparr>wpc := W_woken\<rparr> else w)) =
   (\<lambda>w. signalled (wpc w))"
  by (auto simp: fun_eq_iff)

lemma inv_count_step:
  assumes "inv_mtx s" and "inv_count s" and "step e s = Some s'"
  shows "inv_count s'"
  using assms(3)
proof (cases rule: step_cases)
  case (worker i)
  have inc: "unat (finishedCount s + 1) \<le> Suc (unat (finishedCount s))"
    by (rule unat_inc_le)
  from worker assms(1,2) inc show ?thesis
    by (cases "wpc (workers s ! i)")
       (auto simp: inv_count_def thread_defs filter_update_count split: option.splits if_splits)
next
  case generator
  with assms(1,2) show ?thesis
    by (cases "gpc (gen s)")
       (auto simp: inv_count_def thread_defs filter_wake_all split: option.splits if_splits)
next
  case (notify i t)
  with assms(1,2) show ?thesis
    by (cases t)
       (auto simp: inv_count_def thread_defs filter_update_count nth_list_update split: if_splits)
next
  case (spurious t)
  with assms(1,2) show ?thesis
    by (cases t) (auto simp: inv_count_def thread_defs filter_update_count)
qed

lemma signalled_awaiting: "signalled p \<Longrightarrow> \<not> holds_lock p \<Longrightarrow> awaiting p"
  by (cases p) simp_all

lemma all_signalled:
  assumes "inv_mtx s" and "inv_count s" and "finishedCount s = 4" and "i < 4"
  shows "signalled (wpc (workers s ! i))"
proof -
  from assms(1) have l: "length (workers s) = 4" by (simp add: inv_mtx_def)
  from assms(2,3) have "4 \<le> length (filter (\<lambda>w. signalled (wpc w)) (workers s))"
    by (simp add: inv_count_def)
  with l have "length (workers s) \<le> length (filter (\<lambda>w. signalled (wpc w)) (workers s))"
    by simp
  from filter_full [OF this, of i] l assms(4) show ?thesis by simp
qed

lemma inv_regen_step:
  assumes "inv_mtx s" and "inv_count s" and "inv_regen s" and "step e s = Some s'"
  shows "inv_regen s'"
  using assms(4)
proof (cases rule: step_cases)
  case (worker i)
  from assms(1) worker(2) have i4: "i < 4"
    and wi: "holds_lock (wpc (workers s ! i)) = (cv_mtx s = Some (Worker i))"
    and gl: "gen_holds_lock (gpc (gen s)) = (cv_mtx s = Some Generator)"
    by (simp_all add: inv_mtx_def)
  from assms(3) i4 have ai: "regenerating (gpc (gen s)) \<Longrightarrow> awaiting (wpc (workers s ! i))"
    by (simp add: inv_regen_def)
  have br: "before_reset (gpc (gen s)) \<Longrightarrow> regenerating (gpc (gen s))"
    by (cases "gpc (gen s)") simp_all
  have nl: "regenerating (gpc (gen s)) \<Longrightarrow> \<not> before_reset (gpc (gen s)) \<Longrightarrow>
      gen_holds_lock (gpc (gen s))"
    by (cases "gpc (gen s)") simp_all
  show ?thesis
  proof (cases "regenerating (gpc (gen s))")
    case False
    with br have nb: "\<not> before_reset (gpc (gen s))" by blast
    from worker False nb have "gpc (gen s') = gpc (gen s)"
      by (cases "wpc (workers s ! i)")
         (auto simp: thread_defs split: option.splits if_splits)
    with False nb show ?thesis by (simp add: inv_regen_def)
  next
    case True
    show ?thesis
    proof (cases "before_reset (gpc (gen s))")
      case b: True
      with assms(3) have c4: "finishedCount s = 4" by (simp add: inv_regen_def)
      from worker assms(1,3) ai [OF True] c4 i4 show ?thesis
        by (cases "wpc (workers s ! i)")
           (auto simp: inv_mtx_def inv_regen_def thread_defs nth_list_update
                 split: option.splits if_splits)
    next
      case b: False
      from nl [OF True b] gl have g: "cv_mtx s = Some Generator" by simp
      from worker assms(1,3) ai [OF True] g wi i4 show ?thesis
        by (cases "wpc (workers s ! i)")
           (auto simp: inv_mtx_def inv_regen_def thread_defs nth_list_update
                 split: option.splits if_splits)
    qed
  qed
next
  case generator
  from assms(1) have l: "length (workers s) = 4"
    and gl: "gen_holds_lock (gpc (gen s)) = (cv_mtx s = Some Generator)"
    and wl: "\<And>i. i < 4 \<Longrightarrow> holds_lock (wpc (workers s ! i)) = (cv_mtx s = Some (Worker i))"
    by (simp_all add: inv_mtx_def)
  have enter: "\<And>i::nat. gpc (gen s) = G_wait \<Longrightarrow> finishedCount s = 4 \<Longrightarrow> i < 4 \<Longrightarrow>
      awaiting (wpc (workers s ! i))"
  proof -
    fix i :: nat assume w: "gpc (gen s) = G_wait" and c: "finishedCount s = 4" and i: "i < 4"
    from w gl have "cv_mtx s = Some Generator" by simp
    with wl [OF i] have "\<not> holds_lock (wpc (workers s ! i))" by simp
    with all_signalled [OF assms(1,2) c i] show "awaiting (wpc (workers s ! i))"
      by (rule signalled_awaiting)
  qed
  from generator assms(3) l enter show ?thesis
    by (cases "gpc (gen s)")
       (auto simp: inv_regen_def thread_defs split: option.splits if_splits)
next
  case (notify i t)
  from assms(1) notify(2) have i4: "i < 4" by (simp add: inv_mtx_def)
  from assms(3) i4 have ai: "regenerating (gpc (gen s)) \<Longrightarrow> awaiting (wpc (workers s ! i))"
    by (simp add: inv_regen_def)
  have br: "before_reset (gpc (gen s)) \<Longrightarrow> regenerating (gpc (gen s))"
    by (cases "gpc (gen s)") simp_all
  from notify assms(1,3) ai br i4 show ?thesis
    by (cases t; cases "regenerating (gpc (gen s))")
       (auto simp: inv_mtx_def inv_regen_def thread_defs nth_list_update split: if_splits)
next
  case (spurious t)
  with assms(1,3) show ?thesis
    by (cases t) (auto simp: inv_mtx_def inv_regen_def thread_defs nth_list_update)
qed

lemma worker_frame:
  assumes "multiplicationThread i s = Some s'"
  shows "currentN s' = currentN s \<and> globalA s' = globalA s \<and> globalB s' = globalB s \<and>
         gen s' = gen s"
  using assms
  by (cases "wpc (workers s ! i)")
     (auto simp: thread_defs split: option.splits if_splits)

lemma wake_frame:
  "currentN (wake t s) = currentN s \<and> globalA (wake t s) = globalA s \<and>
   globalB (wake t s) = globalB s \<and> finishedCount (wake t s) = finishedCount s \<and>
   cv_mtx (wake t s) = cv_mtx s \<and> fault (wake t s) = fault s"
  by (cases t) (simp_all add: thread_defs)

lemma new_matrix_SomeD:
  "new_matrix n v = Some m \<Longrightarrow> 0 \<le> n \<and> m = replicate (nat n) (replicate (nat n) v)"
  by (auto simp: new_matrix_def split: if_splits)

lemma inv_slot_gen:
  assumes "inv_slot s" and "matrixGeneratorThread s = Some s'"
  shows "inv_slot s'"
proof (cases "gpc (gen s)")
  case G_newA
  with assms show ?thesis
    by (auto simp: inv_slot_def slot_ok_def matrixGeneratorThread_def Let_def
             split: option.splits dest!: new_matrix_SomeD)
next
  case G_newB
  with assms show ?thesis
    by (auto simp: inv_slot_def slot_ok_def matrixGeneratorThread_def Let_def
             split: option.splits dest!: new_matrix_SomeD)
next
  case G_notify
  with assms show ?thesis
    by (auto simp: inv_slot_def slot_ok_def matrixGeneratorThread_def Let_def wake_all_def)
next
  case G_unlock2
  with assms show ?thesis
    by (auto simp: inv_slot_def slot_ok_def matrixGeneratorThread_def Let_def loop_forever_def)
qed (use assms in \<open>auto simp: inv_slot_def slot_ok_def matrixGeneratorThread_def Let_def
       split: if_splits\<close>)

lemma inv_slot_cong:
  assumes "inv_slot s" and "currentN s' = currentN s" and "globalA s' = globalA s"
    and "globalB s' = globalB s"
    and "gen s' = gen s \<or> (gpc (gen s) = G_blocked \<and> gen s' = (gen s)\<lparr>gpc := G_woken\<rparr>)"
  shows "inv_slot s'"
  using assms(5)
proof
  assume "gen s' = gen s"
  with assms(1-4) show ?thesis by (simp add: inv_slot_def slot_ok_def)
next
  assume "gpc (gen s) = G_blocked \<and> gen s' = (gen s)\<lparr>gpc := G_woken\<rparr>"
  with assms(1-4) show ?thesis by (simp add: inv_slot_def slot_ok_def)
qed

lemma wake_gen:
  "gen (wake t s) = gen s \<or> (gpc (gen s) = G_blocked \<and> gen (wake t s) = (gen s)\<lparr>gpc := G_woken\<rparr>) \<or> \<not> blocked t s"
  by (cases t) (simp_all add: thread_defs)

lemma notify_frame:
  assumes "notify_one i t s = Some s'"
  shows "currentN s' = currentN s \<and> globalA s' = globalA s \<and> globalB s' = globalB s \<and>
         finishedCount s' = finishedCount s \<and> cv_mtx s' = cv_mtx s \<and> fault s' = fault s \<and>
         (gen s' = gen s \<or> (gpc (gen s) = G_blocked \<and> gen s' = (gen s)\<lparr>gpc := G_woken\<rparr>))"
  using assms
  by (cases t) (auto simp: thread_defs split: if_splits)

lemma inv_slot_step:
  assumes "inv_slot s" and "step e s = Some s'"
  shows "inv_slot s'"
  using assms(2)
proof (cases rule: step_cases)
  case (worker i)
  from worker_frame [OF worker(3)] show ?thesis
    by (intro inv_slot_cong [OF assms(1)]) simp_all
next
  case generator
  with assms(1) show ?thesis by (simp add: inv_slot_gen)
next
  case (notify i t)
  from notify_frame [OF notify(3)] show ?thesis
    by (intro inv_slot_cong [OF assms(1)]) simp_all
next
  case (spurious t)
  from wake_gen [of t s] spurious wake_frame [of t s] show ?thesis
    by (intro inv_slot_cong [OF assms(1)]) auto
qed

lemma not_awaiting_stable:
  assumes "inv_regen s" and "i < 4" and "\<not> awaiting (wpc (workers s ! i))"
  shows "\<not> regenerating (gpc (gen s)) \<and> \<not> installing (gpc (gen s))"
proof -
  from assms have r: "\<not> regenerating (gpc (gen s))" by (auto simp: inv_regen_def)
  then have "\<not> installing (gpc (gen s))" by (cases "gpc (gen s)") simp_all
  with r show ?thesis by simp
qed

lemma inv_locals_worker:
  assumes "length (workers s) = 4" and "inv_locals s" and "i < 4"
    and "multiplicationThread i s = Some s'"
  shows "inv_locals s'"
proof -
  from worker_frame [OF assms(4)] have n: "currentN s' = currentN s" by simp
  have oth: "\<And>j. j \<noteq> i \<Longrightarrow> workers s' ! j = workers s ! j"
    using assms(1,3,4)
    by (cases "wpc (workers s ! i)")
       (auto simp: thread_defs split: option.splits if_splits)
  from assms(2,3) have
    ci: "computing (wpc (workers s ! i)) \<Longrightarrow> N_local (workers s ! i) = currentN s"
    by (simp add: inv_locals_def)
  from assms(2,3) have
    cm: "wpc (workers s ! i) = W_mult \<Longrightarrow> C_local (workers s ! i) =
        replicate (nat (sint (N_local (workers s ! i))))
          (replicate (nat (sint (N_local (workers s ! i)))) 0)"
    by (simp add: inv_locals_def)
  have self: "(computing (wpc (workers s' ! i)) \<longrightarrow> N_local (workers s' ! i) = currentN s) \<and>
     (wpc (workers s' ! i) = W_mult \<longrightarrow> C_local (workers s' ! i) =
        replicate (nat (sint (N_local (workers s' ! i))))
          (replicate (nat (sint (N_local (workers s' ! i)))) 0))"
    using assms(1,3,4) ci cm
    by (cases "wpc (workers s ! i)")
       (auto simp: thread_defs split: option.splits if_splits dest!: new_matrix_SomeD)
  show ?thesis
    unfolding inv_locals_def
  proof (intro allI impI)
    fix j :: nat assume j: "j < 4"
    show "(computing (wpc (workers s' ! j)) \<longrightarrow> N_local (workers s' ! j) = currentN s') \<and>
       (wpc (workers s' ! j) = W_mult \<longrightarrow> C_local (workers s' ! j) =
          replicate (nat (sint (N_local (workers s' ! j))))
            (replicate (nat (sint (N_local (workers s' ! j)))) 0))"
    proof (cases "j = i")
      case True
      with self n show ?thesis by simp
    next
      case False
      with oth assms(2) j n show ?thesis by (simp add: inv_locals_def)
    qed
  qed
qed

lemma inv_locals_gen:
  assumes "length (workers s) = 4" and "inv_regen s" and "inv_locals s"
    and "matrixGeneratorThread s = Some s'"
  shows "inv_locals s'"
proof -
  consider (double) "gpc (gen s) = G_double" | (notify) "gpc (gen s) = G_notify"
    | (other) "gpc (gen s) \<noteq> G_double" "gpc (gen s) \<noteq> G_notify" by blast
  then show ?thesis
  proof cases
    case double
    with assms(4) have w: "workers s' = workers s"
      by (auto simp: matrixGeneratorThread_def Let_def)
    have "\<And>i::nat. i < 4 \<Longrightarrow> \<not> computing (wpc (workers s ! i))"
    proof -
      fix i :: nat assume i: "i < 4"
      with double assms(2) have "awaiting (wpc (workers s ! i))" by (simp add: inv_regen_def)
      then show "\<not> computing (wpc (workers s ! i))" by (cases "wpc (workers s ! i)") simp_all
    qed
    with assms(3) w show ?thesis by (simp add: inv_locals_def)
  next
    case notify
    with assms(4) have n: "currentN s' = currentN s"
      and w: "workers s' = map (\<lambda>w. if wpc w = W_blocked then w\<lparr>wpc := W_woken\<rparr> else w) (workers s)"
      by (auto simp: matrixGeneratorThread_def Let_def wake_all_def)
    from assms(1,3) n w show ?thesis by (simp add: inv_locals_def)
  next
    case other
    with assms(4) have "currentN s' = currentN s \<and> workers s' = workers s"
      by (cases "gpc (gen s)")
         (auto simp: matrixGeneratorThread_def Let_def split: option.splits if_splits)
    with assms(3) show ?thesis by (simp add: inv_locals_def)
  qed
qed

lemma inv_locals_wake:
  assumes "length (workers s) = 4" and "inv_locals s" and "blocked t s"
  shows "inv_locals (wake t s)"
  using assms
  by (cases t) (auto simp: inv_locals_def thread_defs nth_list_update)

lemma inv_locals_notify:
  assumes "length (workers s) = 4" and "inv_locals s" and "i < 4"
    and "notify_one i t s = Some s'"
  shows "inv_locals s'"
  using assms
  by (cases t) (auto simp: inv_locals_def thread_defs nth_list_update split: if_splits)

lemma inv_locals_step:
  assumes "inv_mtx s" and "inv_regen s" and "inv_locals s" and "step e s = Some s'"
  shows "inv_locals s'"
proof -
  from assms(1) have l: "length (workers s) = 4" by (simp add: inv_mtx_def)
  from assms(4) show ?thesis
  proof (cases rule: step_cases)
    case (worker i)
    with l inv_locals_worker [OF l assms(3)] show ?thesis by simp
  next
    case generator
    with inv_locals_gen [OF l assms(2,3)] show ?thesis by simp
  next
    case (notify i t)
    with l inv_locals_notify [OF l assms(3)] show ?thesis by simp
  next
    case (spurious t)
    with inv_locals_wake [OF l assms(3)] show ?thesis by simp
  qed
qed

lemma fill_int: "0 \<le> n \<Longrightarrow>
  multiplyMatrices (replicate (nat n) (replicate (nat n) a)) (replicate (nat n) (replicate (nat n) b))
      (replicate (nat n) (replicate (nat n) c)) n \<noteq> None"
  using multiplyMatrices_fill [of "nat n" a b c] by simp

lemma new_matrix_None: "(new_matrix n v = None) = (n < 0)"
  by (simp add: new_matrix_def)

lemma inv_safe_worker:
  assumes "inv_regen s" and "inv_slot s" and "inv_locals s" and "inv_safe s"
    and "fault s = None" and "i < 4" and "multiplicationThread i s = Some s'"
  shows "inv_safe s'"
proof (cases "computing (wpc (workers s ! i))")
  case False
  with assms(5,7) show ?thesis
    by (cases "wpc (workers s ! i)")
       (auto simp: inv_safe_def thread_defs split: option.splits if_splits)
next
  case True
  then have "\<not> awaiting (wpc (workers s ! i))" by (cases "wpc (workers s ! i)") simp_all
  from not_awaiting_stable [OF assms(1,6) this] assms(2) have ok: "slot_ok s"
    by (simp add: inv_slot_def)
  from True assms(3,6) have n: "N_local (workers s ! i) = currentN s"
    by (simp add: inv_locals_def)
  from assms(3,6) have c0: "wpc (workers s ! i) = W_mult \<Longrightarrow> C_local (workers s ! i) =
      replicate (nat (sint (N_local (workers s ! i))))
        (replicate (nat (sint (N_local (workers s ! i)))) 0)"
    by (simp add: inv_locals_def)
  have c: "wpc (workers s ! i) = W_mult \<Longrightarrow> C_local (workers s ! i) =
      replicate (nat (sint (currentN s))) (replicate (nat (sint (currentN s))) 0)"
    using c0 unfolding n .
  from ok have pos: "0 \<le> sint (currentN s)" by (simp add: slot_ok_def)
  have m: "wpc (workers s ! i) = W_mult \<Longrightarrow>
     multiplyMatrices (globalA s) (globalB s) (C_local (workers s ! i))
       (sint (N_local (workers s ! i))) \<noteq> None"
  proof -
    assume w: "wpc (workers s ! i) = W_mult"
    from ok have ga: "globalA s = replicate (nat (sint (currentN s))) (replicate (nat (sint (currentN s))) 1)"
      and gb: "globalB s = replicate (nat (sint (currentN s))) (replicate (nat (sint (currentN s))) 2)"
      by (simp_all add: slot_ok_def)
    from fill_int [OF pos, of 1 2 0] show ?thesis
      unfolding n c [OF w] ga [symmetric] gb [symmetric] .
  qed
  have a: "new_matrix (sint (N_local (workers s ! i))) 0 \<noteq> None"
    using pos n by (simp add: new_matrix_None)
  from assms(5,7) True m a show ?thesis
    by (cases "wpc (workers s ! i)")
       (auto simp: inv_safe_def thread_defs split: option.splits if_splits)
qed

lemma inv_safe_gen:
  assumes "inv_slot s" and "fault s = None" and "matrixGeneratorThread s = Some s'"
  shows "inv_safe s'"
proof -
  from assms(1) have b: "gpc (gen s) = G_newB \<Longrightarrow> new_matrix (sint (newSize (gen s))) 2 \<noteq> None"
    by (simp add: inv_slot_def new_matrix_None)
  from assms(1) have a: "gpc (gen s) = G_newA \<Longrightarrow> newSize (gen s) = currentN s"
    by (simp add: inv_slot_def)
  from assms(2,3) a b show ?thesis
    by (cases "gpc (gen s)")
       (auto simp: inv_safe_def matrixGeneratorThread_def Let_def wake_all_def new_matrix_None
             split: option.splits if_splits)
qed

lemma inv_safe_step:
  assumes "inv_mtx s" and "inv_regen s" and "inv_slot s" and "inv_locals s" and "inv_safe s"
    and "step e s = Some s'"
  shows "inv_safe s'"
proof -
  from step_no_fault [OF assms(6)] have nf: "fault s = None" .
  from assms(1) have l: "length (workers s) = 4" by (simp add: inv_mtx_def)
  from assms(6) show ?thesis
  proof (cases rule: step_cases)
    case (worker i)
    with l inv_safe_worker [OF assms(2,3,4,5) nf] show ?thesis by simp
  next
    case generator
    with inv_safe_gen [OF assms(3) nf] show ?thesis by simp
  next
    case (notify i t)
    from notify_frame [OF notify(3)] nf show ?thesis by (simp add: inv_safe_def)
  next
    case (spurious t)
    with wake_frame [of t s] nf show ?thesis by (simp add: inv_safe_def)
  qed
qed

section \<open>The invariants hold in every reachable state\<close>

lemma init_eq:
  "init = \<lparr>currentN = 10, globalA = replicate 10 (replicate 10 1),
      globalB = replicate 10 (replicate 10 2), finishedCount = 0, cv_mtx = None,
      workers = [\<lparr>wpc = W_read, N_local = 0, C_local = []\<rparr>,
                 \<lparr>wpc = W_read, N_local = 0, C_local = []\<rparr>,
                 \<lparr>wpc = W_read, N_local = 0, C_local = []\<rparr>,
                 \<lparr>wpc = W_read, N_local = 0, C_local = []\<rparr>],
      gen = \<lparr>gpc = G_lock, newSize = 0, newA = [], newB = []\<rparr>, fault = None\<rparr>"
  by (simp add: init_def main_startup_def numMultiplicationThreads_def initialN_def
      new_matrix_def replicate4)

lemma init_workers: "i < 4 \<Longrightarrow> workers init ! i = \<lparr>wpc = W_read, N_local = 0, C_local = []\<rparr>"
  by (simp add: init_def main_startup_def numMultiplicationThreads_def initialN_def
      new_matrix_def)

lemma invariant_init: "invariant init"
proof -
  have f: "currentN init = 10" "globalA init = replicate 10 (replicate 10 1)"
    "globalB init = replicate 10 (replicate 10 2)" "finishedCount init = 0" "cv_mtx init = None"
    "gen init = \<lparr>gpc = G_lock, newSize = 0, newA = [], newB = []\<rparr>" "fault init = None"
    "length (workers init) = 4"
    by (simp_all add: init_eq)
  have "inv_mtx init" using f init_workers by (simp add: inv_mtx_def)
  moreover have "inv_term init" using f init_workers by (simp add: inv_term_def)
  moreover have "inv_count init" using f by (simp add: inv_count_def)
  moreover have "inv_regen init" using f by (simp add: inv_regen_def)
  moreover have "inv_slot init" using f by (simp add: inv_slot_def slot_ok_def)
  moreover have "inv_locals init" using f init_workers by (simp add: inv_locals_def)
  moreover have "inv_safe init" using f by (simp add: inv_safe_def)
  ultimately show ?thesis by (simp add: invariant_def)
qed

lemma invariant_step:
  assumes "invariant s" and "step e s = Some s'"
  shows "invariant s'"
proof -
  from assms(1) have i: "inv_mtx s" "inv_term s" "inv_count s" "inv_regen s" "inv_slot s"
    "inv_locals s" "inv_safe s"
    by (simp_all add: invariant_def)
  from inv_mtx_step [OF i(1) assms(2)] inv_term_step [OF i(1,2) assms(2)]
    inv_count_step [OF i(1,3) assms(2)] inv_regen_step [OF i(1,3,4) assms(2)]
    inv_slot_step [OF i(5) assms(2)] inv_locals_step [OF i(1,4,6) assms(2)]
    inv_safe_step [OF i(1,4,5,6,7) assms(2)]
  show ?thesis by (simp add: invariant_def)
qed

lemma invariant_run:
  "invariant s \<Longrightarrow> run evs s = Some s' \<Longrightarrow> invariant s'"
proof (induction evs arbitrary: s)
  case Nil
  then show ?case by simp
next
  case (Cons e evs)
  from Cons.prems(2) obtain s1 where s1: "step e s = Some s1" and r: "run evs s1 = Some s'"
    by (auto split: option.splits)
  from invariant_step [OF Cons.prems(1) s1] have "invariant s1" .
  from Cons.IH [OF this r] show ?case .
qed

lemma reachable_invariant: "run evs init = Some s \<Longrightarrow> invariant s"
  using invariant_init by (rule invariant_run)

lemma workers_ball:
  assumes "length (workers s) = 4" and "\<forall>i<4. P (workers s ! i)"
  shows "\<forall>w \<in> set (workers s). P w"
  using assms by (auto simp: in_set_conv_nth)

lemma multiplyMatrices_iff:
  "multiplyMatrices A B C N \<noteq> None \<longleftrightarrow> dims_ok A N \<and> dims_ok B N \<and> dims_ok C N"
proof
  assume "multiplyMatrices A B C N \<noteq> None"
  then obtain C' where "multiplyMatrices A B C N = Some C'" by auto
  then show "dims_ok A N \<and> dims_ok B N \<and> dims_ok C N" by (rule multiplyMatrices_SomeD)
next
  assume "dims_ok A N \<and> dims_ok B N \<and> dims_ok C N"
  with multiplyMatrices_Some [of A N B C] show "multiplyMatrices A B C N \<noteq> None" by auto
qed

lemma new_matrix_dims: "new_matrix N v = Some C \<Longrightarrow> dims_ok C N"
  by (auto simp: new_matrix_def dims_ok_def split: if_splits)

section \<open>Running the concrete schedules\<close>

lemma mult10:
  "multiplyMatrices (replicate 10 (replicate 10 1)) (replicate 10 (replicate 10 2))
      (replicate 10 (replicate 10 0)) 10 = Some (replicate 10 (replicate 10 20))"
  using multiplyMatrices_fill [of 10 1 2 0] by simp

lemmas exec_defs = step_def multiplicationThread_def matrixGeneratorThread_def notify_one_def
  set_worker_def blocked_def any_blocked_def wake_def wake_all_def Let_def loop_forever_def
  double_size_def new_matrix_def init_eq mult10 list_update_2 list_update_3

lemma eval_ready:
  "\<exists>s. run ready_schedule init = Some s \<and> gpc (gen s) = G_double \<and> finishedCount s = 4 \<and>
     map wpc (workers s) = [W_woken, W_blocked, W_blocked, W_blocked] \<and> currentN s = 10 \<and>
     cv_mtx s = None \<and> fault s = None \<and> length (globalA s) = 10"
  by (simp add: ready_schedule_def exec_defs)

lemma eval_reset:
  "\<exists>s. run reset_schedule init = Some s \<and> gpc (gen s) = G_reset \<and> finishedCount s = 4 \<and>
     map wpc (workers s) = [W_woken, W_blocked, W_blocked, W_blocked] \<and> currentN s = 20 \<and>
     cv_mtx s = Some Generator \<and> fault s = None \<and> length (globalA s) = 20 \<and>
     doublings reset_schedule init = 1"
  by (simp add: reset_schedule_def ready_schedule_def exec_defs)

lemma eval_lost_wakeup:
  "\<exists>s. run lost_wakeup_schedule init = Some s \<and> gpc (gen s) = G_blocked \<and> finishedCount s = 4 \<and>
     map wpc (workers s) = [W_blocked, W_blocked, W_blocked, W_blocked] \<and>
     cv_mtx s = None \<and> fault s = None"
  by (simp add: lost_wakeup_schedule_def exec_defs)

section \<open>Consequences of the invariants\<close>

lemma gen_slot_frame:
  assumes "matrixGeneratorThread s = Some s'"
    and "gpc (gen s) \<noteq> G_double" and "gpc (gen s) \<noteq> G_setA" and "gpc (gen s) \<noteq> G_setB"
  shows "slot s' = slot s"
  using assms
  by (cases "gpc (gen s)")
     (auto simp: slot_def matrixGeneratorThread_def Let_def wake_all_def
           split: option.splits if_splits)

lemma step_slot_frame:
  assumes "step e s = Some s'" and "\<not> slot_write e s"
  shows "slot s' = slot s"
  using assms(1)
proof (cases rule: step_cases)
  case (worker i)
  from worker_frame [OF worker(3)] show ?thesis by (simp add: slot_def)
next
  case generator
  with assms(2) gen_slot_frame [of s s'] show ?thesis by (auto simp: slot_write_def)
next
  case (notify i t)
  from notify_frame [OF notify(3)] show ?thesis by (simp add: slot_def)
next
  case (spurious t)
  with wake_frame [of t s] show ?thesis by (simp add: slot_def)
qed

lemma slot_write_regenerating: "slot_write e s \<Longrightarrow> before_reset (gpc (gen s))"
  by (auto simp: slot_write_def)

lemma before_reset_regenerating: "before_reset p \<Longrightarrow> regenerating p"
  by (cases p) simp_all

lemma regenerating_awaiting:
  assumes "invariant s" and "regenerating (gpc (gen s))"
  shows "\<forall>w \<in> set (workers s). awaiting (wpc w)"
proof -
  from assms(1) have l: "length (workers s) = 4" and r: "inv_regen s"
    by (simp_all add: invariant_def inv_mtx_def)
  from r assms(2) have "\<forall>i<4. awaiting (wpc (workers s ! i))" by (simp add: inv_regen_def)
  with l show ?thesis by (rule workers_ball)
qed

lemma all_blocked_stuck:
  assumes "gpc (gen s) = G_blocked" and "\<forall>w \<in> set (workers s). wpc w = W_blocked"
  shows "step (Exec t) s = None \<and> step (Notify t t') s = None"
proof (cases t)
  case (Worker i)
  from assms(2) have "i < length (workers s) \<Longrightarrow> wpc (workers s ! i) = W_blocked" by simp
  with Worker show ?thesis
    by (simp add: step_def multiplicationThread_def notify_one_def Let_def)
next
  case Generator
  with assms(1) show ?thesis by (simp add: step_def matrixGeneratorThread_def Let_def)
qed

lemma small_cint:
  assumes "unat (c :: cint) \<le> 4"
  shows "c = 0 \<or> c = 1 \<or> c = 2 \<or> c = 3 \<or> c = 4"
proof -
  have e: "of_nat (unat c) = c" by simp
  from assms consider "unat c = 0" | "unat c = 1" | "unat c = 2" | "unat c = 3" | "unat c = 4"
    by linarith
  then show ?thesis
  proof cases
    case 1
    then show ?thesis by (simp add: unat_eq_0)
  next
    case 2
    with e have "c = of_nat 1" by simp
    then show ?thesis by simp
  next
    case 3
    with e have "c = of_nat 2" by simp
    then show ?thesis by simp
  next
    case 4
    with e have "c = of_nat 3" by simp
    then show ?thesis by simp
  next
    case 5
    with e have "c = of_nat 4" by simp
    then show ?thesis by simp
  qed
qed

lemma count_change:
  assumes "step e s = Some s'"
  shows "finishedCount s' = finishedCount s \<or>
         (\<exists>i. e = Exec (Worker i) \<and> i < length (workers s) \<and> wpc (workers s ! i) = W_inc \<and>
              finishedCount s' = finishedCount s + 1) \<or>
         (e = Exec Generator \<and> gpc (gen s) = G_reset \<and> finishedCount s' = 0)"
  using assms
proof (cases rule: step_cases)
  case (worker i)
  then show ?thesis
    by (cases "wpc (workers s ! i)")
       (auto simp: thread_defs split: option.splits if_splits)
next
  case generator
  then show ?thesis
    by (cases "gpc (gen s)")
       (auto simp: matrixGeneratorThread_def Let_def wake_all_def split: option.splits if_splits)
next
  case (notify i t)
  from notify_frame [OF notify(3)] show ?thesis by simp
next
  case (spurious t)
  with wake_frame [of t s] show ?thesis by simp
qed

lemma count_bound:
  assumes "invariant s"
  shows "unat (finishedCount s) \<le> 4"
proof -
  from assms have "unat (finishedCount s) \<le> length (filter (\<lambda>w. signalled (wpc w)) (workers s))"
    and "length (workers s) = 4"
    by (simp_all add: invariant_def inv_count_def inv_mtx_def)
  moreover have "length (filter (\<lambda>w. signalled (wpc w)) (workers s)) \<le> length (workers s)"
    by (rule length_filter_le)
  ultimately show ?thesis by simp
qed

lemma count_before_inc:
  assumes "invariant s" and "i < length (workers s)" and "wpc (workers s ! i) = W_inc"
  shows "unat (finishedCount s) < 4"
proof -
  from assms(1) have c: "unat (finishedCount s) \<le> length (filter (\<lambda>w. signalled (wpc w)) (workers s))"
    and l: "length (workers s) = 4"
    by (simp_all add: invariant_def inv_count_def inv_mtx_def)
  from assms(3) have "\<not> signalled (wpc (workers s ! i))" by simp
  with assms(2) have "length (filter (\<lambda>w. signalled (wpc w)) (workers s)) < length (workers s)"
    by (intro filter_missing [of i]) simp_all
  with c l show ?thesis by simp
qed

lemma lock_holder:
  assumes "invariant s"
  shows "(gen_holds_lock (gpc (gen s)) \<longrightarrow> cv_mtx s = Some Generator) \<and>
         (\<forall>i<4. holds_lock (wpc (workers s ! i)) \<longrightarrow> cv_mtx s = Some (Worker i))"
  using assms by (simp add: invariant_def inv_mtx_def)

lemma reset_under_lock:
  assumes "invariant s"
    and "gpc (gen s) = G_reset \<or> gpc (gen s) = G_notify \<or> gpc (gen s) = G_unlock2"
  shows "cv_mtx s = Some Generator \<and>
         (\<forall>w \<in> set (workers s). wpc w = W_blocked \<or> wpc w = W_woken)"
proof -
  from assms(2) have gl: "gen_holds_lock (gpc (gen s))" and rg: "regenerating (gpc (gen s))"
    by auto
  from assms(1) have l: "length (workers s) = 4" by (simp add: invariant_def inv_mtx_def)
  from lock_holder [OF assms(1)] gl have m: "cv_mtx s = Some Generator" by simp
  have "\<forall>i<4. wpc (workers s ! i) = W_blocked \<or> wpc (workers s ! i) = W_woken"
  proof (intro allI impI)
    fix i :: nat assume i: "i < 4"
    from assms(1) rg i have a: "awaiting (wpc (workers s ! i))"
      by (simp add: invariant_def inv_regen_def)
    from lock_holder [OF assms(1)] i m have "\<not> holds_lock (wpc (workers s ! i))" by auto
    with a show "wpc (workers s ! i) = W_blocked \<or> wpc (workers s ! i) = W_woken"
      by (cases "wpc (workers s ! i)") simp_all
  qed
  with l have "\<forall>w \<in> set (workers s). wpc w = W_blocked \<or> wpc w = W_woken"
    by (rule workers_ball)
  with m show ?thesis by simp
qed

lemma currentN_change:
  assumes "step e s = Some s'"
  shows "currentN s' =
     (if e = Exec Generator \<and> gpc (gen s) = G_double then double_size (currentN s)
      else currentN s)"
proof (cases "slot_write e s")
  case False
  from step_slot_frame [OF assms False] False show ?thesis
    by (auto simp: slot_def slot_write_def)
next
  case True
  then have e: "e = Exec Generator" by (simp add: slot_write_def)
  with assms have "matrixGeneratorThread s = Some s'" by (simp add: step_def split: if_splits)
  with True e show ?thesis
    by (auto simp: slot_write_def matrixGeneratorThread_def Let_def)
qed

lemma doublings_run:
  "run evs s = Some s' \<Longrightarrow> currentN s' = (double_size ^^ doublings evs s) (currentN s)"
proof (induction evs arbitrary: s)
  case Nil
  then show ?case by simp
next
  case (Cons e evs)
  from Cons.prems obtain s1 where s1: "step e s = Some s1" and r: "run evs s1 = Some s'"
    by (auto split: option.splits)
  from Cons.IH [OF r] have "currentN s' = (double_size ^^ doublings evs s1) (currentN s1)" .
  with currentN_change [OF s1] s1 show ?case
    by (simp add: funpow_swap1)
qed

lemma funpow_double: "(double_size ^^ k) n = n * 2 ^ k"
  by (induction k) (simp_all add: double_size_def mult.assoc)

lemma sint_ten_doubled:
  assumes "k \<le> 27"
  shows "sint (10 * 2 ^ k :: cint) = 10 * 2 ^ k"
proof -
  from assms have "(2::int) ^ k \<le> 2 ^ 27" by (intro power_increasing) simp_all
  then have b: "(10::int) * 2 ^ k < 2 ^ 31" by simp
  have "(10 * 2 ^ k :: cint) = word_of_int (10 * 2 ^ k)" by simp
  moreover have p: "(0::int) \<le> 10 * 2 ^ k" by simp
  have l: "- (2 ^ 31) \<le> (10::int) * 2 ^ k"
    by (rule order_trans [OF _ p]) simp
  from l b have "signed_take_bit 31 ((10::int) * 2 ^ k) = 10 * 2 ^ k"
    by (rule signed_take_bit_int_eq_self)
  then have "sint (word_of_int (10 * 2 ^ k) :: cint) = 10 * 2 ^ k"
    by (simp only: sint_sbintrunc') simp
  ultimately show ?thesis by simp
qed

lemma eval_release:
  "\<exists>s. run (reset_schedule @ [Exec Generator, Exec Generator]) init = Some s \<and>
     gpc (gen s) = G_unlock2 \<and> fault s = None \<and> finishedCount s = 0 \<and>
     map wpc (workers s) = [W_woken, W_woken, W_woken, W_woken]"
  by (simp add: reset_schedule_def ready_schedule_def exec_defs)

lemma eval_doubled:
  "\<exists>s. run (ready_schedule @ [Exec Generator]) init = Some s \<and>
     gpc (gen s) = G_size \<and> currentN s = 20 \<and> globalA s = replicate 10 (replicate 10 1) \<and>
     globalB s = replicate 10 (replicate 10 2)"
  by (simp add: ready_schedule_def exec_defs)

lemma eval_first_read:
  "\<exists>s. run [Exec (Worker 0)] init = Some s \<and> wpc (workers s ! 0) = W_alloc \<and>
     length (workers s) = 4 \<and> currentN s = 10 \<and> fault s = None \<and>
     wpc (workers s ! 1) = W_read"
  by (simp add: exec_defs)

lemma square_replicate: "square (replicate n (replicate n v)) n"
  by (simp add: square_def)

lemma slot_writes_run:
  "run es s = Some s' \<Longrightarrow> slot_writes es s = 0 \<Longrightarrow> slot s' = slot s"
proof (induction es arbitrary: s)
  case Nil
  then show ?case by simp
next
  case (Cons e es)
  from Cons.prems(1) obtain s1 where s1: "step e s = Some s1" and r: "run es s1 = Some s'"
    by (auto split: option.splits)
  from Cons.prems(2) s1 have nw: "\<not> slot_write e s" and z: "slot_writes es s1 = 0"
    by (auto split: if_splits)
  from Cons.IH [OF r z] step_slot_frame [OF s1 nw] show ?case by simp
qed

lemma eval_first_read_locals:
  "\<exists>s. run [Exec (Worker 0)] init = Some s \<and> wpc (workers s ! 0) = W_alloc \<and>
     length (workers s) = 4 \<and> N_local (workers s ! 0) = 10 \<and> fault s = None"
  by (simp add: exec_defs)

lemma sum4_upd:
  assumes "i < (4::nat)"
  shows "(\<Sum>j<4. (a(i := v)) j) + a i = (\<Sum>j<4. a j) + (v::nat)"
proof -
  have f: "finite {..<4::nat}" and m: "i \<in> {..<4::nat}" using assms by simp_all
  have "(\<Sum>j<4. (a(i := v)) j) = v + (\<Sum>j\<in>{..<4} - {i}. (a(i := v)) j)"
    using sum.remove [OF f m, of "a(i := v)"] by simp
  moreover have "(\<Sum>j\<in>{..<4} - {i}. (a(i := v)) j) = (\<Sum>j\<in>{..<4} - {i}. a j)"
    by (rule sum.cong) simp_all
  moreover have "(\<Sum>j<4. a j) = a i + (\<Sum>j\<in>{..<4} - {i}. a j)"
    using sum.remove [OF f m, of a] by simp
  ultimately show ?thesis by simp
qed

lemma sum4_zero: "(\<Sum>j<(4::nat). a j) = (0::nat) \<Longrightarrow> i < 4 \<Longrightarrow> a i = 0"
  by simp

lemma sum4_full:
  assumes "(\<Sum>j<(4::nat). a j) = (4::nat)" and "\<forall>j<4. a j \<le> 1" and "i < 4"
  shows "a i = 1"
proof (rule ccontr)
  assume "a i \<noteq> 1"
  with assms(2,3) have z: "a i = 0" by (metis le_neq_implies_less less_one)
  have f: "finite {..<4::nat}" and m: "i \<in> {..<4::nat}" using assms(3) by simp_all
  have "(\<Sum>j<4. a j) = a i + (\<Sum>j\<in>{..<4} - {i}. a j)"
    using sum.remove [OF f m, of a] by simp
  moreover have "(\<Sum>j\<in>{..<4} - {i}. a j) \<le> (\<Sum>j\<in>{..<4} - {i}. 1)"
    using assms(2) by (intro sum_mono) simp
  moreover have "(\<Sum>j\<in>{..<4::nat} - {i}. (1::nat)) = 3" using m by simp
  ultimately show False using z assms(1) by simp
qed

lemma unat_inc_small: "unat (c::cint) \<le> 4 \<Longrightarrow> unat (c + 1) = Suc (unat c)"
  by (simp add: unat_word_ariths)

lemma worker_others:
  assumes "multiplicationThread i s = Some s'" and "j \<noteq> i"
  shows "workers s' ! j = workers s ! j"
  using assms
  by (cases "wpc (workers s ! i)")
     (auto simp: thread_defs split: option.splits if_splits)

lemma worker_pc_step:
  assumes "multiplicationThread i s = Some s'" and "i < length (workers s)"
  shows "(wpc (workers s ! i) = W_inc \<and> wpc (workers s' ! i) = W_check \<and>
            finishedCount s' = finishedCount s + 1) \<or>
         (wpc (workers s ! i) = W_wait \<and> wpc (workers s' ! i) = W_unlock \<and>
            finishedCount s = 0 \<and> finishedCount s' = 0) \<or>
         (wpc (workers s ! i) \<noteq> W_inc \<and> finishedCount s' = finishedCount s \<and>
            (signalled (wpc (workers s ! i)) \<longrightarrow> signalled (wpc (workers s' ! i))))"
  using assms
  by (cases "wpc (workers s ! i)")
     (auto simp: thread_defs split: option.splits if_splits)

lemma inv_arrivals_step:
  assumes "inv_mtx s" and "inv_arrivals s a" and "step e s = Some s'"
  shows "inv_arrivals s' (arrive e s a)"
proof -
  from assms(1) have l: "length (workers s) = 4" by (simp add: inv_mtx_def)
  from assms(2) have b: "\<And>j. j < 4 \<Longrightarrow> a j \<le> 1"
    and sg: "\<And>j. j < 4 \<Longrightarrow> a j = 1 \<Longrightarrow> signalled (wpc (workers s ! j))"
    and c: "unat (finishedCount s) = (\<Sum>j<4. a j)"
    by (simp_all add: inv_arrivals_def)
  from assms(3) show ?thesis
  proof (cases rule: step_cases)
    case (worker i)
    from worker(2) l have i4: "i < 4" by simp
    from worker_pc_step [OF worker(3,2)] show ?thesis
    proof (elim disjE conjE)
      assume p: "wpc (workers s ! i) = W_inc" and p': "wpc (workers s' ! i) = W_check"
        and n: "finishedCount s' = finishedCount s + 1"
      from p sg [OF i4] have "a i \<noteq> 1" by auto
      with b [OF i4] have z: "a i = 0" by simp
      from worker(1,2) p have ar: "arrive e s a = a(i := Suc (a i))" by (simp add: arrive_def)
      from sum4_upd [OF i4, of a "Suc (a i)"] z
      have s1: "(\<Sum>j<4. (a(i := Suc (a i))) j) = Suc (\<Sum>j<4. a j)" by simp
      have "(\<Sum>j<4. a j) \<le> (\<Sum>j<(4::nat). 1)" using b by (intro sum_mono) simp
      with c have "unat (finishedCount s) \<le> 4" by simp
      from unat_inc_small [OF this] n c s1
      have cnt: "unat (finishedCount s') = (\<Sum>j<4. (a(i := Suc (a i))) j)" by simp
      have "\<forall>j<4. (a(i := Suc (a i))) j \<le> 1 \<and>
          ((a(i := Suc (a i))) j = 1 \<longrightarrow> signalled (wpc (workers s' ! j)))"
      proof (intro allI impI)
        fix j :: nat assume j: "j < 4"
        show "(a(i := Suc (a i))) j \<le> 1 \<and>
          ((a(i := Suc (a i))) j = 1 \<longrightarrow> signalled (wpc (workers s' ! j)))"
        proof (cases "j = i")
          case True
          with z p' show ?thesis by simp
        next
          case False
          with worker_others [OF worker(3) False] b [OF j] sg [OF j] show ?thesis by simp
        qed
      qed
      with cnt ar show ?thesis by (simp add: inv_arrivals_def)
    next
      assume p: "wpc (workers s ! i) = W_wait" and z: "finishedCount s = 0"
        and z': "finishedCount s' = 0"
      from worker(1) p have ar: "arrive e s a = a" by (simp add: arrive_def)
      from c z have s0: "(\<Sum>j<4. a j) = 0" by simp
      have "\<forall>j<4. a j \<le> 1 \<and> (a j = 1 \<longrightarrow> signalled (wpc (workers s' ! j)))"
      proof (intro allI impI)
        fix j :: nat assume j: "j < 4"
        from sum4_zero [OF s0 j] show "a j \<le> 1 \<and> (a j = 1 \<longrightarrow> signalled (wpc (workers s' ! j)))"
          by simp
      qed
      with s0 z' ar show ?thesis by (simp add: inv_arrivals_def)
    next
      assume p: "wpc (workers s ! i) \<noteq> W_inc" and n: "finishedCount s' = finishedCount s"
        and k: "signalled (wpc (workers s ! i)) \<longrightarrow> signalled (wpc (workers s' ! i))"
      from worker(1) p have ar: "arrive e s a = a" by (simp add: arrive_def)
      have "\<forall>j<4. a j \<le> 1 \<and> (a j = 1 \<longrightarrow> signalled (wpc (workers s' ! j)))"
      proof (intro allI impI)
        fix j :: nat assume j: "j < 4"
        show "a j \<le> 1 \<and> (a j = 1 \<longrightarrow> signalled (wpc (workers s' ! j)))"
        proof (cases "j = i")
          case True
          with b [OF j] sg [OF j] k show ?thesis by simp
        next
          case False
          with worker_others [OF worker(3) False] b [OF j] sg [OF j] show ?thesis by simp
        qed
      qed
      with c n ar show ?thesis by (simp add: inv_arrivals_def)
    qed
  next
    case generator
    show ?thesis
    proof (cases "gpc (gen s) = G_reset")
      case True
      with generator have "finishedCount s' = 0" "arrive e s a = (\<lambda>i. 0)"
        by (auto simp: matrixGeneratorThread_def Let_def arrive_def)
      then show ?thesis by (simp add: inv_arrivals_def)
    next
      case False
      with generator have ar: "arrive e s a = a" by (simp add: arrive_def)
      from generator False have n: "finishedCount s' = finishedCount s"
        by (cases "gpc (gen s)")
           (auto simp: matrixGeneratorThread_def Let_def wake_all_def split: option.splits if_splits)
      from generator l have w: "\<And>j. j < 4 \<Longrightarrow> signalled (wpc (workers s ! j)) \<Longrightarrow>
          signalled (wpc (workers s' ! j))"
        by (cases "gpc (gen s)")
           (auto simp: matrixGeneratorThread_def Let_def wake_all_def split: option.splits if_splits)
      from b sg c n w ar show ?thesis by (simp add: inv_arrivals_def)
    qed
  next
    case (notify i t)
    then have ar: "arrive e s a = a" by (simp add: arrive_def)
    from notify_frame [OF notify(3)] have n: "finishedCount s' = finishedCount s" by simp
    from notify l have w: "\<And>j. j < 4 \<Longrightarrow> signalled (wpc (workers s ! j)) \<Longrightarrow>
          signalled (wpc (workers s' ! j))"
      by (cases t) (auto simp: thread_defs nth_list_update split: if_splits)
    from b sg c n w ar show ?thesis by (simp add: inv_arrivals_def)
  next
    case (spurious t)
    then have ar: "arrive e s a = a" by (simp add: arrive_def)
    from spurious wake_frame [of t s] have n: "finishedCount s' = finishedCount s" by simp
    from spurious l have w: "\<And>j. j < 4 \<Longrightarrow> signalled (wpc (workers s ! j)) \<Longrightarrow>
          signalled (wpc (workers s' ! j))"
      by (cases t) (auto simp: thread_defs nth_list_update)
    from b sg c n w ar show ?thesis by (simp add: inv_arrivals_def)
  qed
qed

lemma inv_arrivals_run:
  "invariant s \<Longrightarrow> inv_arrivals s a \<Longrightarrow> run evs s = Some s' \<Longrightarrow>
   inv_arrivals s' (arrivals evs s a)"
proof (induction evs arbitrary: s a)
  case Nil
  then show ?case by simp
next
  case (Cons e evs)
  from Cons.prems(3) obtain s1 where s1: "step e s = Some s1" and r: "run evs s1 = Some s'"
    by (auto split: option.splits)
  from Cons.prems(1) have m: "inv_mtx s" by (simp add: invariant_def)
  from Cons.IH [OF invariant_step [OF Cons.prems(1) s1] inv_arrivals_step [OF m Cons.prems(2) s1] r]
    s1 show ?case by simp
qed

lemma inv_arrivals_init: "inv_arrivals init (\<lambda>i. 0)"
  by (simp add: inv_arrivals_def init_eq)

lemma all_arrived:
  assumes "run evs init = Some s" and "finishedCount s = 4" and "i < 4"
  shows "arrivals evs init (\<lambda>i. 0) i = 1"
proof -
  from inv_arrivals_run [OF invariant_init inv_arrivals_init assms(1)]
  have j: "inv_arrivals s (arrivals evs init (\<lambda>i. 0))" .
  with assms(2) have "(\<Sum>j<4. arrivals evs init (\<lambda>i. 0) j) = 4" by (simp add: inv_arrivals_def)
  moreover from j have "\<forall>j<4. arrivals evs init (\<lambda>i. 0) j \<le> 1" by (simp add: inv_arrivals_def)
  ultimately show ?thesis using assms(3) by (rule sum4_full)
qed

lemma mult20:
  "multiplyMatrices (replicate 20 (replicate 20 1)) (replicate 20 (replicate 20 2))
      (replicate 20 (replicate 20 0)) 20 = Some (replicate 20 (replicate 20 40))"
  using multiplyMatrices_fill [of 20 1 2 0] by simp

lemma eval_overtake:
  "\<exists>s. run overtake_schedule init = Some s \<and> gpc (gen s) = G_blocked \<and> finishedCount s = 1 \<and>
     map wpc (workers s) = [W_blocked, W_blocked, W_blocked, W_blocked] \<and>
     cv_mtx s = None \<and> fault s = None \<and> currentN s = 20"
  by (simp add: overtake_schedule_def reset_schedule_def ready_schedule_def exec_defs mult20)

lemma eval_second_step:
  "\<exists>s. run [Exec (Worker 0), Exec (Worker 0)] init = Some s \<and> wpc (workers s ! 0) = W_mult \<and>
     length (workers s) = 4 \<and> fault s = None \<and> sint (N_local (workers s ! 0)) = 10"
  by (simp add: exec_defs)

lemma eval_at_wait:
  "\<exists>s. run (take 29 ready_schedule) init = Some s \<and> gpc (gen s) = G_wait \<and>
     finishedCount s = 4 \<and> fault s = None"
  by (simp add: ready_schedule_def exec_defs)

lemma starved_step:
  assumes "starved s" and "step e s = Some s'"
  shows "starved s'"
proof -
  from assms(1) have c: "finishedCount s = 1" and g: "starved_generator (gpc (gen s))"
    and w: "\<And>j. j < length (workers s) \<Longrightarrow> starved_worker (wpc (workers s ! j))"
    by (simp_all add: starved_def list_all_length)
  from assms(2) show ?thesis
  proof (cases rule: step_cases)
    case (worker i)
    from w [OF worker(2)] worker c g assms(1) show ?thesis
      by (cases "wpc (workers s ! i)")
         (auto simp: starved_def thread_defs list_all_length nth_list_update
               split: option.splits if_splits)
  next
    case generator
    with c g assms(1) show ?thesis
      by (cases "gpc (gen s)")
         (auto simp: starved_def matrixGeneratorThread_def Let_def split: if_splits)
  next
    case (notify i t)
    from w [OF notify(2)] notify show ?thesis
      by (auto simp: notify_one_def Let_def split: if_splits)
  next
    case (spurious t)
    with c g assms(1) show ?thesis
      by (cases t) (auto simp: starved_def thread_defs list_all_length nth_list_update)
  qed
qed

lemma starved_run: "starved s \<Longrightarrow> run es s = Some s' \<Longrightarrow> starved s'"
proof (induction es arbitrary: s)
  case Nil
  then show ?case by simp
next
  case (Cons e es)
  from Cons.prems(2) obtain s1 where s1: "step e s = Some s1" and r: "run es s1 = Some s'"
    by (auto split: option.splits)
  from Cons.IH [OF starved_step [OF Cons.prems(1) s1] r] show ?case .
qed

lemma eval_worker_unlock:
  "\<exists>s. run (take 43 overtake_schedule) init = Some s \<and> wpc (workers s ! 0) = W_unlock \<and>
     length (workers s) = 4 \<and> fault s = None \<and> gpc (gen s) = G_lock"
  by (simp add: overtake_schedule_def reset_schedule_def ready_schedule_def exec_defs)

section \<open>The two models of \<open>multiplyMatrices\<close> agree\<close>

text \<open>
  Where no product and no partial sum overflows and \<open>C\<close> is an object of its own, the function on
  references returns what the function on values returns, and changes no other object.
\<close>

lemma int_fits_take_bit: "int_fits x \<Longrightarrow> signed_take_bit 31 x = x"
  unfolding int_fits_def by (rule signed_take_bit_int_eq_self) simp_all

lemma sint_mult_fits:
  assumes "int_fits (sint x * sint y)"
  shows "sint (x * y :: cint) = sint x * sint y"
  using int_fits_take_bit [OF assms] by (simp only: sint_word_mult) simp

lemma sint_add_fits:
  assumes "int_fits (sint x + sint y)"
  shows "sint (x + y :: cint) = sint x + sint y"
  using int_fits_take_bit [OF assms] by (simp only: sint_word_add) simp

lemma sint_fits: "int_fits x \<Longrightarrow> sint (word_of_int x :: cint) = x"
  using int_fits_take_bit [of x] by (simp only: sint_sbintrunc') simp

lemma mat_at_SomeD: "mat_at M i k = Some x \<Longrightarrow> x = M ! i ! k"
  by (auto simp: mat_at_def vec_at_def split: if_splits option.splits)

lemma sum_loop_ref_eq:
  assumes "sum_loop A B i j N k acc = Some r" and "st a = A" and "st b = B"
    and "no_overflow A B i j (nat N)" and "sint acc = dot A B i j k" and "k \<le> nat N"
  shows "sum_loop_ref st a b i j N k acc = Inr r \<and> sint r = dot A B i j (nat N)"
  using assms
proof (induction A B i j N k acc arbitrary: r rule: sum_loop.induct)
  case (1 A B i j N k acc)
  show ?case
  proof (cases "int k < N")
    case False
    with "1.prems"(6) have k: "k = nat N" by simp
    from False "1.prems"(1) have "r = acc" by (subst (asm) sum_loop.simps) simp
    with False k "1.prems"(5) show ?thesis by (subst sum_loop_ref.simps) simp
  next
    case True
    with "1.prems"(1) obtain x y where x: "mat_at A i k = Some x" and y: "mat_at B k j = Some y"
      and rec: "sum_loop A B i j N (Suc k) (acc + x * y) = Some r"
      by (subst (asm) sum_loop.simps) (auto split: option.splits)
    from mat_at_SomeD [OF x] mat_at_SomeD [OF y] have xy: "x = A ! i ! k" "y = B ! k ! j" .
    from True have kn: "k < nat N" by simp
    with "1.prems"(4) xy have f1: "int_fits (sint x * sint y)"
      and f2: "int_fits (dot A B i j (Suc k))"
      by (simp_all add: no_overflow_def)
    have d: "dot A B i j (Suc k) = sint acc + sint x * sint y"
      using "1.prems"(5) xy by (simp add: dot_def)
    with f2 have f3: "int_fits (sint acc + sint x * sint y)" by simp
    from f1 have "int_fits (sint acc + sint (x * y))" using f3 by (simp add: sint_mult_fits)
    from sint_add_fits [OF this] f1 d have acc': "sint (acc + x * y) = dot A B i j (Suc k)"
      by (simp add: sint_mult_fits)
    from kn have "Suc k \<le> nat N" by simp
    from "1.IH" [OF True x y rec "1.prems"(2,3,4) acc' this]
    have "sum_loop_ref st a b i j N (Suc k) (acc + x * y) = Inr r \<and>
          sint r = dot A B i j (nat N)" .
    with True x y f1 f3 "1.prems"(2,3) show ?thesis
      by (subst sum_loop_ref.simps) simp
  qed
qed

lemma col_loop_ref_eq:
  assumes "col_loop A B C i N j = Some C'" and "st a = A" and "st b = B" and "st c = C"
    and "c \<noteq> a" and "c \<noteq> b" and "\<forall>j'. int j' < N \<longrightarrow> no_overflow A B i j' (nat N)"
  shows "col_loop_ref st a b c i N j = Inr (st(c := C'))"
  using assms
proof (induction A B C i N j arbitrary: st rule: col_loop.induct)
  case (1 A B C i N j)
  show ?case
  proof (cases "int j < N")
    case False
    with "1.prems"(1) have "C' = C" by (subst (asm) col_loop.simps) simp
    with "1.prems"(4) have "st(c := C') = st" by auto
    with False show ?thesis by (subst col_loop_ref.simps) simp
  next
    case True
    with "1.prems"(1) obtain s C1 where s: "sum_loop A B i j N 0 0 = Some s"
      and m: "mat_set C i j s = Some C1" and rec: "col_loop A B C1 i N (Suc j) = Some C'"
      by (subst (asm) col_loop.simps) (auto split: option.splits)
    from "1.prems"(7) True have "no_overflow A B i j (nat N)" by simp
    from sum_loop_ref_eq [OF s "1.prems"(2,3) this]
    have sr: "sum_loop_ref st a b i j N 0 0 = Inr s" by (simp add: dot_def)
    have "col_loop_ref (st(c := C1)) a b c i N (Suc j) = Inr ((st(c := C1))(c := C'))"
      by (rule "1.IH" [OF True s m rec]) (use "1.prems" in simp_all)
    then have "col_loop_ref (st(c := C1)) a b c i N (Suc j) = Inr (st(c := C'))" by simp
    with True sr m "1.prems"(4) show ?thesis by (subst col_loop_ref.simps) simp
  qed
qed

lemma row_loop_ref_eq:
  assumes "row_loop A B C N i = Some C'" and "st a = A" and "st b = B" and "st c = C"
    and "c \<noteq> a" and "c \<noteq> b"
    and "\<forall>i' j'. int i' < N \<and> int j' < N \<longrightarrow> no_overflow A B i' j' (nat N)"
  shows "row_loop_ref st a b c N i = Inr (st(c := C'))"
  using assms
proof (induction A B C N i arbitrary: st rule: row_loop.induct)
  case (1 A B C N i)
  show ?case
  proof (cases "int i < N")
    case False
    with "1.prems"(1) have "C' = C" by (subst (asm) row_loop.simps) simp
    with "1.prems"(4) have "st(c := C') = st" by auto
    with False show ?thesis by (subst row_loop_ref.simps) simp
  next
    case True
    with "1.prems"(1) obtain C1 where cl: "col_loop A B C i N 0 = Some C1"
      and rec: "row_loop A B C1 N (Suc i) = Some C'"
      by (subst (asm) row_loop.simps) (auto split: option.splits)
    from "1.prems"(7) True have "\<forall>j'. int j' < N \<longrightarrow> no_overflow A B i j' (nat N)" by simp
    from col_loop_ref_eq [OF cl "1.prems"(2,3,4,5,6) this]
    have cr: "col_loop_ref st a b c i N 0 = Inr (st(c := C1))" .
    have "row_loop_ref (st(c := C1)) a b c N (Suc i) = Inr ((st(c := C1))(c := C'))"
      by (rule "1.IH" [OF True cl rec]) (use "1.prems" in simp_all)
    then have "row_loop_ref (st(c := C1)) a b c N (Suc i) = Inr (st(c := C'))" by simp
    with True cr show ?thesis by (subst row_loop_ref.simps) simp
  qed
qed

lemma word_dot:
  "(\<Sum>k<n. A ! i ! k * B ! k ! j :: cint) = word_of_int (dot A B i j n)"
  by (induction n) (simp_all add: dot_def)

lemma multiplyMatrices_ref_eq:
  assumes "multiplyMatrices (st a) (st b) (st c) N = Some C'" and "c \<noteq> a" and "c \<noteq> b"
    and "\<forall>i j. int i < N \<and> int j < N \<longrightarrow> no_overflow (st a) (st b) i j (nat N)"
  shows "multiplyMatrices_ref a b c N st = Inr (st(c := C'))"
  using row_loop_ref_eq [of "st a" "st b" "st c" N 0 C' st a b c] assms
  by (simp add: multiplyMatrices_def multiplyMatrices_ref_def)

lemma dot_fits_total:
  assumes "no_overflow A B i j n"
  shows "int_fits (dot A B i j n)"
proof (cases n)
  case 0
  then show ?thesis by (simp add: dot_def int_fits_def)
next
  case (Suc m)
  with assms show ?thesis by (simp add: no_overflow_def)
qed

section \<open>Further consequences of the invariants\<close>

lemma sint_nonneg_outside:
  assumes "invariant s" and "gpc (gen s) \<noteq> G_size" and "gpc (gen s) \<noteq> G_newA"
  shows "0 \<le> sint (currentN s)"
proof -
  from assms(1) have i: "inv_slot s" by (simp add: invariant_def)
  show ?thesis
  proof (cases "installing (gpc (gen s))")
    case False
    with i show ?thesis by (simp add: inv_slot_def slot_ok_def)
  next
    case True
    with assms(2,3) have "gpc (gen s) = G_newB \<or> gpc (gen s) = G_lock2 \<or>
        gpc (gen s) = G_setA \<or> gpc (gen s) = G_setB"
      by (cases "gpc (gen s)") simp_all
    with i show ?thesis by (auto simp: inv_slot_def)
  qed
qed

lemma ten_doubled_28: "sint (10 * 2 ^ 28 :: cint) < 0"
  by simp

lemma ten_doubled_nonneg:
  assumes "k \<le> 28" and "0 \<le> sint (10 * 2 ^ k :: cint)"
  shows "k \<le> 27"
proof (rule ccontr)
  assume "\<not> k \<le> 27"
  with assms(1) have "k = 28" by simp
  with assms(2) ten_doubled_28 show False by simp
qed

lemma doublings_bounded:
  assumes "run evs s = Some s'" and "invariant s" and "currentN s = 10 * 2 ^ k" and "k \<le> 28"
  shows "k + doublings evs s \<le> 28"
  using assms
proof (induction evs arbitrary: s k)
  case Nil
  then show ?case by simp
next
  case (Cons e evs)
  from Cons.prems(1) obtain s1 where s1: "step e s = Some s1" and r: "run evs s1 = Some s'"
    by (auto split: option.splits)
  from invariant_step [OF Cons.prems(2) s1] have i1: "invariant s1" .
  show ?case
  proof (cases "e = Exec Generator \<and> gpc (gen s) = G_double")
    case True
    then have "gpc (gen s) \<noteq> G_size" and "gpc (gen s) \<noteq> G_newA" by simp_all
    from sint_nonneg_outside [OF Cons.prems(2) this] Cons.prems(3)
    have "0 \<le> sint (10 * 2 ^ k :: cint)" by simp
    from ten_doubled_nonneg [OF Cons.prems(4) this] have k: "Suc k \<le> 28" by simp
    from currentN_change [OF s1] True Cons.prems(3)
    have "currentN s1 = 10 * 2 ^ Suc k" by (simp add: double_size_def)
    from Cons.IH [OF r i1 this k] s1 True show ?thesis by simp
  next
    case False
    with currentN_change [OF s1] Cons.prems(3) have "currentN s1 = 10 * 2 ^ k" by auto
    from Cons.IH [OF r i1 this Cons.prems(4)] s1 False show ?thesis by auto
  qed
qed

lemma installed_size:
  assumes "run evs init = Some s" and "gpc (gen s) \<noteq> G_size" and "gpc (gen s) \<noteq> G_newA"
  shows "sint (currentN s) = 10 * 2 ^ doublings evs init"
proof -
  have n0: "currentN init = 10 * 2 ^ 0" by (simp add: init_eq)
  from doublings_bounded [OF assms(1) invariant_init n0] have b: "doublings evs init \<le> 28" by simp
  from doublings_run [OF assms(1)] have c: "currentN s = 10 * 2 ^ doublings evs init"
    by (simp add: funpow_double init_eq)
  from sint_nonneg_outside [OF reachable_invariant [OF assms(1)] assms(2,3)] c
  have "0 \<le> sint (10 * 2 ^ doublings evs init :: cint)" by simp
  from ten_doubled_nonneg [OF b this] have "doublings evs init \<le> 27" .
  from sint_ten_doubled [OF this] c show ?thesis by simp
qed



lemma eval_at_setB:
  "\<exists>s. run (ready_schedule @ [Exec Generator, Exec Generator, Exec Generator, Exec Generator,
       Exec Generator, Exec Generator]) init = Some s \<and>
     gpc (gen s) = G_setB \<and> currentN s = 20 \<and>
     globalA s = replicate 20 (replicate 20 1) \<and> globalB s = replicate 10 (replicate 10 2)"
  by (simp add: ready_schedule_def exec_defs)

lemma unnoticed_step:
  assumes "unnoticed s" and "step e s = Some s'" and "e \<noteq> Spurious Generator"
  shows "unnoticed s'"
proof -
  from assms(1) have c: "finishedCount s = 4" and g: "gpc (gen s) = G_blocked"
    and w: "\<And>j. j < length (workers s) \<Longrightarrow> awaiting (wpc (workers s ! j))"
    by (simp_all add: unnoticed_def list_all_length)
  from assms(2) show ?thesis
  proof (cases rule: step_cases)
    case (worker i)
    from w [OF worker(2)] worker c g assms(1) show ?thesis
      by (cases "wpc (workers s ! i)")
         (auto simp: unnoticed_def thread_defs list_all_length nth_list_update
               split: option.splits if_splits)
  next
    case generator
    with g show ?thesis by (simp add: matrixGeneratorThread_def Let_def)
  next
    case (notify i t)
    from w [OF notify(2)] notify show ?thesis
      by (auto simp: notify_one_def Let_def split: if_splits)
  next
    case (spurious t)
    with c g assms(1,3) show ?thesis
      by (cases t) (auto simp: unnoticed_def thread_defs list_all_length nth_list_update)
  qed
qed

lemma unnoticed_run:
  "unnoticed s \<Longrightarrow> run es s = Some s' \<Longrightarrow> Spurious Generator \<notin> set es \<Longrightarrow> unnoticed s'"
proof (induction es arbitrary: s)
  case Nil
  then show ?case by simp
next
  case (Cons e es)
  from Cons.prems(2) obtain s1 where s1: "step e s = Some s1" and r: "run es s1 = Some s'"
    by (auto split: option.splits)
  from Cons.prems(3) have e: "e \<noteq> Spurious Generator" and es: "Spurious Generator \<notin> set es"
    by auto
  from Cons.IH [OF unnoticed_step [OF Cons.prems(1) s1 e] r es] show ?case .
qed

lemma starved_no_doubling: "starved s \<Longrightarrow> doublings es s = 0"
proof (induction es arbitrary: s)
  case Nil
  then show ?case by simp
next
  case (Cons e es)
  show ?case
  proof (cases "step e s")
    case None
    then show ?thesis by simp
  next
    case (Some s1)
    from Cons.prems have "gpc (gen s) \<noteq> G_double" by (auto simp: starved_def)
    with Some Cons.IH [OF starved_step [OF Cons.prems Some]] show ?thesis by simp
  qed
qed

lemma one_doubling:
  assumes "run evs init = Some s" and "gpc (gen s) = G_blocked" and "currentN s = 20"
  shows "doublings evs init = 1"
proof -
  from installed_size [OF assms(1)] assms(2,3) have "(2::int) ^ doublings evs init = 2 ^ 1"
    by simp
  then show ?thesis by (simp only: power_inject_exp)
qed

lemma wake_all_fields:
  "workers (wake_all s) =
     map (\<lambda>w. if wpc w = W_blocked then w\<lparr>wpc := W_woken\<rparr> else w) (workers s)"
  "cv_mtx (wake_all s) = cv_mtx s" "finishedCount (wake_all s) = finishedCount s"
  by (simp_all add: wake_all_def)

lemma notify_all_wakes:
  assumes "invariant s" and "gpc (gen s) = G_notify" and "fault s = None"
  shows "\<exists>s'. step (Exec Generator) s = Some s' \<and> gpc (gen s') = G_unlock2 \<and>
           finishedCount s' = finishedCount s \<and> cv_mtx s' = Some Generator \<and>
           (\<forall>w \<in> set (workers s'). wpc w = W_woken)"
proof -
  from reset_under_lock [OF assms(1)] assms(2)
  have m: "cv_mtx s = Some Generator"
    and w: "\<forall>w \<in> set (workers s). wpc w = W_blocked \<or> wpc w = W_woken" by simp_all
  let ?s = "(wake_all s)\<lparr>gen := (gen s)\<lparr>gpc := G_unlock2\<rparr>\<rparr>"
  from assms(2,3) have st: "step (Exec Generator) s = Some ?s"
    by (simp add: step_def matrixGeneratorThread_def Let_def)
  from w have "\<forall>w \<in> set (workers (wake_all s)). wpc w = W_woken"
    unfolding wake_all_fields by auto
  then have a: "\<forall>w \<in> set (workers ?s). wpc w = W_woken" by simp
  have b: "gpc (gen ?s) = G_unlock2" by simp
  have c: "finishedCount ?s = finishedCount s" by (simp add: wake_all_fields)
  from m have d: "cv_mtx ?s = Some Generator" by (simp add: wake_all_fields)
  from st a b c d show ?thesis by blast
qed

lemma zero_step:
  assumes "invariant s" and "releasing (gpc (gen s)) \<longrightarrow> finishedCount s = 0"
    and "step e s = Some s'"
  shows "releasing (gpc (gen s')) \<longrightarrow> finishedCount s' = 0"
  using assms(3)
proof (cases rule: step_cases)
  case (worker i)
  from worker_frame [OF worker(3)] have g: "gen s' = gen s" by simp
  show ?thesis
  proof
    assume "releasing (gpc (gen s'))"
    with g have r: "releasing (gpc (gen s))" by simp
    then have "gpc (gen s) = G_reset \<or> gpc (gen s) = G_notify \<or> gpc (gen s) = G_unlock2"
      by (cases "gpc (gen s)") simp_all
    with reset_under_lock [OF assms(1)]
    have "\<forall>w \<in> set (workers s). wpc w = W_blocked \<or> wpc w = W_woken" by blast
    moreover from worker(2) have "workers s ! i \<in> set (workers s)" by simp
    ultimately have "wpc (workers s ! i) \<noteq> W_inc" by force
    with count_change [OF assms(3)] worker(1) assms(2) r show "finishedCount s' = 0" by auto
  qed
next
  case generator
  with assms(2) show ?thesis
    by (cases "gpc (gen s)")
       (auto simp: matrixGeneratorThread_def Let_def wake_all_fields split: option.splits if_splits)
next
  case (notify i t)
  from notify_frame [OF notify(3)] assms(2) show ?thesis by auto
next
  case (spurious t)
  with wake_frame [of t s] wake_gen [of t s] assms(2) show ?thesis by auto
qed

lemma zero_run:
  assumes "invariant s" and "releasing (gpc (gen s)) \<longrightarrow> finishedCount s = 0"
    and "run evs s = Some s'"
  shows "releasing (gpc (gen s')) \<longrightarrow> finishedCount s' = 0"
  using assms
proof (induction evs arbitrary: s)
  case Nil
  then show ?case by simp
next
  case (Cons e evs)
  from Cons.prems(3) obtain s1 where s1: "step e s = Some s1" and r: "run evs s1 = Some s'"
    by (auto split: option.splits)
  from Cons.IH [OF invariant_step [OF Cons.prems(1) s1] zero_step [OF Cons.prems(1,2) s1] r]
  show ?case .
qed

lemma zero_until_release:
  assumes "run evs init = Some s" and "gpc (gen s) = G_notify \<or> gpc (gen s) = G_unlock2"
  shows "finishedCount s = 0"
proof -
  have "releasing (gpc (gen init)) \<longrightarrow> finishedCount init = 0" by (simp add: init_eq)
  from zero_run [OF invariant_init this assms(1)] assms(2) show ?thesis by auto
qed

lemma eval_at_notify:
  "\<exists>s. run (reset_schedule @ [Exec Generator]) init = Some s \<and> gpc (gen s) = G_notify \<and>
     fault s = None \<and> finishedCount s = 0 \<and>
     map wpc (workers s) = [W_woken, W_blocked, W_blocked, W_blocked]"
  by (simp add: reset_schedule_def ready_schedule_def exec_defs)

section \<open>The claims\<close>

subsection \<open>C1: the wake-up of the generator\<close>

text \<open>
  Claim C1 says that the generator's wait returns exactly when \<open>finishedCount\<close> reaches 4, never
  hangs, and that the worker that makes the counter reach 4 wakes the generator. The comment in
  line 71 says the same (the fourth worker notifies the generator). The code does not do that:
  all five threads wait on the one condition variable, and \<open>notify_one\<close> unblocks any one of them.
  Along \<open>lost_wakeup_schedule\<close> it unblocks worker 0. The theorem evaluates the program on this
  schedule: the counter is 4, the generator and all four workers are blocked on the condition
  variable, the mutex is free, and no thread can execute a statement; only a spurious wake-up of
  the generator, which nothing guarantees, would let the program continue.
\<close>

theorem lost_wakeup:
  "case run lost_wakeup_schedule init of
     None \<Rightarrow> False
   | Some s \<Rightarrow>
       finishedCount s = 4 \<and> gpc (gen s) = G_blocked \<and>
       map wpc (workers s) = [W_blocked, W_blocked, W_blocked, W_blocked] \<and>
       cv_mtx s = None \<and> fault s = None \<and>
       (\<forall>t. step (Exec t) s = None) \<and> (\<forall>t t'. step (Notify t t') s = None)"
proof -
  from eval_lost_wakeup obtain s where
    "run lost_wakeup_schedule init = Some s \<and> gpc (gen s) = G_blocked \<and> finishedCount s = 4 \<and>
     map wpc (workers s) = [W_blocked, W_blocked, W_blocked, W_blocked] \<and>
     cv_mtx s = None \<and> fault s = None" ..
  then have r: "run lost_wakeup_schedule init = Some s"
    and g: "gpc (gen s) = G_blocked" and c: "finishedCount s = 4"
    and w: "map wpc (workers s) = [W_blocked, W_blocked, W_blocked, W_blocked]"
    and m: "cv_mtx s = None" and f: "fault s = None"
    by simp_all
  from w have "set (map wpc (workers s)) = {W_blocked}" by simp
  then have "\<forall>w \<in> set (workers s). wpc w = W_blocked" by auto
  from all_blocked_stuck [OF g this] r g c w m f show ?thesis by simp
qed

subsection \<open>C2: start-up\<close>

text \<open>
  Claim C2 speaks of a check of the configuration at start-up. \<open>main\<close> has no statement of that
  kind: lines 123--134 construct the two matrices and create the four workers and the generator.
  The number of workers (line 127), the constant both waits compare the counter with (lines 72 and
  87) and the initial size (line 19) are literals, so the program has one configuration, the state
  \<open>init\<close>, in which the three agree, and no run on which a check could fail. Whether the source
  contains a check is a property of its text and not of its behaviour; no theorem below stands
  for this claim.
\<close>

subsection \<open>C3: the generator writes only while every worker waits\<close>

text \<open>
  Claim C3: in every reachable state, a step that changes the shared slot (the size or one of the
  global matrices) is a step of the generator, taken when \<open>finishedCount\<close> is 4, each of the four
  workers has incremented the counter exactly once since its last reset, and all four workers are
  inside the wait that follows the increment; and as long as the
  generator is between the return of its wait and the release of the mutex after \<open>notify_all\<close>,
  every worker is inside that wait, so no worker is computing.
\<close>

theorem write_only_after_all_signalled:
  assumes "run evs init = Some s"
  shows "(regenerating (gpc (gen s)) \<longrightarrow> (\<forall>w \<in> set (workers s). awaiting (wpc w))) \<and>
         (\<forall>e s'. step e s = Some s' \<and> slot s' \<noteq> slot s \<longrightarrow>
            e = Exec Generator \<and> finishedCount s = 4 \<and> length (workers s) = 4 \<and>
            (\<forall>i<4. arrivals evs init (\<lambda>i. 0) i = 1) \<and>
            (\<forall>w \<in> set (workers s). awaiting (wpc w)))"
proof -
  from reachable_invariant [OF assms] have i: "invariant s" .
  have "\<forall>e s'. step e s = Some s' \<and> slot s' \<noteq> slot s \<longrightarrow>
            e = Exec Generator \<and> finishedCount s = 4 \<and> length (workers s) = 4 \<and>
            (\<forall>i<4. arrivals evs init (\<lambda>i. 0) i = 1) \<and>
            (\<forall>w \<in> set (workers s). awaiting (wpc w))"
  proof (intro allI impI)
    fix e s' assume a: "step e s = Some s' \<and> slot s' \<noteq> slot s"
    with step_slot_frame [of e s s'] have w: "slot_write e s" by blast
    then have b: "before_reset (gpc (gen s))" by (rule slot_write_regenerating)
    with i have c: "finishedCount s = 4" by (simp add: invariant_def inv_regen_def)
    moreover from i have "length (workers s) = 4" by (simp add: invariant_def inv_mtx_def)
    moreover from w have "e = Exec Generator" by (simp add: slot_write_def)
    moreover from regenerating_awaiting [OF i before_reset_regenerating [OF b]]
    have "\<forall>w \<in> set (workers s). awaiting (wpc w)" .
    moreover from all_arrived [OF assms c]
    have "\<forall>i<4. arrivals evs init (\<lambda>i. 0) i = 1" by blast
    ultimately show "e = Exec Generator \<and> finishedCount s = 4 \<and> length (workers s) = 4 \<and>
            (\<forall>i<4. arrivals evs init (\<lambda>i. 0) i = 1) \<and>
            (\<forall>w \<in> set (workers s). awaiting (wpc w))" by simp
  qed
  with regenerating_awaiting [OF i] show ?thesis by blast
qed

text \<open>
  The theorem at the state reached by \<open>ready_schedule\<close>, where the generator's next step doubles
  \<open>currentN\<close>.
\<close>

theorem write_only_after_all_signalled_witness:
  "case run ready_schedule init of
     None \<Rightarrow> False
   | Some s \<Rightarrow>
       (case step (Exec Generator) s of
          None \<Rightarrow> False
        | Some s' \<Rightarrow>
            regenerating (gpc (gen s)) \<and> currentN s = 10 \<and> currentN s' = 20 \<and>
            finishedCount s = 4 \<and> list_all (\<lambda>w. awaiting (wpc w)) (workers s) \<and>
            map (arrivals ready_schedule init (\<lambda>i. 0)) [0, 1, 2, 3] = [1, 1, 1, 1])"
proof -
  from eval_ready obtain s where
    "run ready_schedule init = Some s \<and> gpc (gen s) = G_double \<and> finishedCount s = 4 \<and>
     map wpc (workers s) = [W_woken, W_blocked, W_blocked, W_blocked] \<and> currentN s = 10 \<and>
     cv_mtx s = None \<and> fault s = None \<and> length (globalA s) = 10" ..
  then have r: "run ready_schedule init = Some s"
    and g: "gpc (gen s) = G_double" and n: "currentN s = 10" and f: "fault s = None"
    by simp_all
  from g f n obtain s' where st: "step (Exec Generator) s = Some s'" and n': "currentN s' = 20"
    by (simp add: step_def matrixGeneratorThread_def Let_def double_size_def)
  from n n' have d: "slot s' \<noteq> slot s" by (simp add: slot_def)
  from write_only_after_all_signalled [OF r] st d
  have "finishedCount s = 4 \<and> (\<forall>i<4. arrivals ready_schedule init (\<lambda>i. 0) i = 1) \<and>
    (\<forall>w \<in> set (workers s). awaiting (wpc w))" by blast
  then have "finishedCount s = 4" and "\<forall>w \<in> set (workers s). awaiting (wpc w)"
    and "map (arrivals ready_schedule init (\<lambda>i. 0)) [0, 1, 2, 3] = [1, 1, 1, 1]"
    by simp_all
  with r st g n n' show ?thesis by (simp add: list_all_iff)
qed

subsection \<open>C4: the dimensions of the global matrices\<close>

text \<open>
  Claim C4, as amended. The claim says that \<open>globalA\<close> and \<open>globalB\<close> are square of dimension
  \<open>currentN\<close> in every reachable state. The generator changes the three in three statements (lines
  91, 110 and 111), so from line 91 to line 111 they disagree. What holds: in every reachable
  state in which the generator is outside this window, \<open>currentN\<close> is not negative and both
  matrices are square of dimension \<open>currentN\<close> (this covers the initial state and every state from
  the installation of the second matrix to the next doubling); and the generator is outside the
  window whenever some worker is outside its barrier wait. Nothing is said about the states inside
  the window.
\<close>

theorem payload_dimensions:
  assumes "run evs init = Some s"
  shows "(\<not> installing (gpc (gen s)) \<longrightarrow>
            0 \<le> sint (currentN s) \<and>
            square (globalA s) (nat (sint (currentN s))) \<and>
            square (globalB s) (nat (sint (currentN s)))) \<and>
         ((\<exists>w \<in> set (workers s). \<not> awaiting (wpc w)) \<longrightarrow> \<not> installing (gpc (gen s)))"
proof -
  from reachable_invariant [OF assms] have i: "invariant s" .
  have a: "\<not> installing (gpc (gen s)) \<longrightarrow>
            0 \<le> sint (currentN s) \<and>
            square (globalA s) (nat (sint (currentN s))) \<and>
            square (globalB s) (nat (sint (currentN s)))"
  proof
    assume "\<not> installing (gpc (gen s))"
    with i have "slot_ok s" by (simp add: invariant_def inv_slot_def)
    then have "0 \<le> sint (currentN s)"
      and "globalA s = replicate (nat (sint (currentN s))) (replicate (nat (sint (currentN s))) 1)"
      and "globalB s = replicate (nat (sint (currentN s))) (replicate (nat (sint (currentN s))) 2)"
      by (simp_all add: slot_ok_def)
    with square_replicate [of "nat (sint (currentN s))" 1]
      square_replicate [of "nat (sint (currentN s))" 2]
    show "0 \<le> sint (currentN s) \<and>
            square (globalA s) (nat (sint (currentN s))) \<and>
            square (globalB s) (nat (sint (currentN s)))" by simp
  qed
  have b: "(\<exists>w \<in> set (workers s). \<not> awaiting (wpc w)) \<longrightarrow> \<not> installing (gpc (gen s))"
  proof
    assume n: "\<exists>w \<in> set (workers s). \<not> awaiting (wpc w)"
    show "\<not> installing (gpc (gen s))"
    proof
      assume "installing (gpc (gen s))"
      then have "regenerating (gpc (gen s))" by (cases "gpc (gen s)") simp_all
      from regenerating_awaiting [OF i this] n show False by blast
    qed
  qed
  from a b show ?thesis by blast
qed

text \<open>
  The theorem at the state reached by \<open>reset_schedule\<close>, where the first regeneration has installed
  two 20 x 20 matrices, and at the initial state, where the workers are outside the barrier.
\<close>

theorem payload_dimensions_witness:
  "(case run reset_schedule init of
      None \<Rightarrow> False
    | Some s \<Rightarrow>
        \<not> installing (gpc (gen s)) \<and> sint (currentN s) = 20 \<and>
        square (globalA s) 20 \<and> square (globalB s) 20) \<and>
   list_ex (\<lambda>w. \<not> awaiting (wpc w)) (workers init) \<and> \<not> installing (gpc (gen init)) \<and>
   square (globalA init) 10 \<and> square (globalB init) 10"
proof -
  from eval_reset obtain s where
    "run reset_schedule init = Some s \<and> gpc (gen s) = G_reset \<and> finishedCount s = 4 \<and>
     map wpc (workers s) = [W_woken, W_blocked, W_blocked, W_blocked] \<and> currentN s = 20 \<and>
     cv_mtx s = Some Generator \<and> fault s = None \<and> length (globalA s) = 20 \<and>
     doublings reset_schedule init = 1" ..
  then have r: "run reset_schedule init = Some s" and g: "gpc (gen s) = G_reset"
    and n: "currentN s = 20"
    by simp_all
  from g have ni: "\<not> installing (gpc (gen s))" by simp
  from payload_dimensions [OF r] ni n
  have "square (globalA s) 20" and "square (globalB s) 20" by simp_all
  with r ni n have first: "case run reset_schedule init of
      None \<Rightarrow> False
    | Some s \<Rightarrow>
        \<not> installing (gpc (gen s)) \<and> sint (currentN s) = 20 \<and>
        square (globalA s) 20 \<and> square (globalB s) 20"
    by simp
  have r0: "run [] init = Some init" by simp
  have w: "\<exists>w \<in> set (workers init). \<not> awaiting (wpc w)" by (simp add: init_eq)
  have n0: "sint (currentN init) = 10" by (simp add: init_eq)
  note t = payload_dimensions [OF r0]
  from t w have ni0: "\<not> installing (gpc (gen init))" by blast
  with t n0 have "square (globalA init) 10" and "square (globalB init) 10" by simp_all
  with first w ni0 show ?thesis by (simp add: list_ex_iff)
qed

text \<open>
  Two states inside the window. After \<open>ready_schedule\<close> and the generator's step at line 91,
  \<open>currentN\<close> is 20 and both global matrices still have 10 rows. Five steps later, between lines
  110 and 111, \<open>globalA\<close> has 20 rows and \<open>globalB\<close> still has 10.
\<close>

theorem payload_dimensions_counterexample:
  "(case run (ready_schedule @ [Exec Generator]) init of
      None \<Rightarrow> False
    | Some s \<Rightarrow>
        sint (currentN s) = 20 \<and> length (globalA s) = 10 \<and> length (globalB s) = 10 \<and>
        \<not> square (globalA s) (nat (sint (currentN s))) \<and>
        \<not> square (globalB s) (nat (sint (currentN s)))) \<and>
   (case run (ready_schedule @ [Exec Generator, Exec Generator, Exec Generator, Exec Generator,
        Exec Generator, Exec Generator]) init of
      None \<Rightarrow> False
    | Some s \<Rightarrow>
        sint (currentN s) = 20 \<and> length (globalA s) = 20 \<and> length (globalB s) = 10 \<and>
        \<not> square (globalB s) (nat (sint (currentN s))))"
proof -
  from eval_doubled obtain s where
    "run (ready_schedule @ [Exec Generator]) init = Some s \<and>
     gpc (gen s) = G_size \<and> currentN s = 20 \<and> globalA s = replicate 10 (replicate 10 1) \<and>
     globalB s = replicate 10 (replicate 10 2)" ..
  then have a: "case run (ready_schedule @ [Exec Generator]) init of
      None \<Rightarrow> False
    | Some s \<Rightarrow>
        sint (currentN s) = 20 \<and> length (globalA s) = 10 \<and> length (globalB s) = 10 \<and>
        \<not> square (globalA s) (nat (sint (currentN s))) \<and>
        \<not> square (globalB s) (nat (sint (currentN s)))"
    by (simp add: square_def)
  from eval_at_setB obtain u where
    "run (ready_schedule @ [Exec Generator, Exec Generator, Exec Generator, Exec Generator,
       Exec Generator, Exec Generator]) init = Some u \<and>
     gpc (gen u) = G_setB \<and> currentN u = 20 \<and>
     globalA u = replicate 20 (replicate 20 1) \<and> globalB u = replicate 10 (replicate 10 2)" ..
  then have "case run (ready_schedule @ [Exec Generator, Exec Generator, Exec Generator,
        Exec Generator, Exec Generator, Exec Generator]) init of
      None \<Rightarrow> False
    | Some s \<Rightarrow>
        sint (currentN s) = 20 \<and> length (globalA s) = 20 \<and> length (globalB s) = 10 \<and>
        \<not> square (globalB s) (nat (sint (currentN s)))"
    by (simp add: square_def)
  with a show ?thesis by (rule conjI)
qed

subsection \<open>C5: \<open>finishedCount\<close> is 4 only until the reset\<close>

text \<open>
  Claim C5 says that \<open>finishedCount\<close> lies between 0 and 4, that it is 4 only transiently,
  immediately before its reset, and that the reset happens under the lock together with the
  release of the next round. The range and the reset under the lock hold (they are proved in the
  last section). The counter is not 4 only transiently: for that the generator must wake up when
  the counter reaches 4, which is what the comments in lines 71 and 84 describe, and \<open>notify_one\<close>
  in line 73 may wake a worker instead (see C1). The theorem evaluates the program on
  \<open>lost_wakeup_schedule\<close>: the counter is 4 and the generator is blocked, and along every further
  schedule without a spurious wake-up of the generator the counter stays 4, the generator stays
  blocked and every worker stays inside its wait. The reset does not take place.
\<close>

theorem count_stays_four_after_lost_wakeup:
  "case run lost_wakeup_schedule init of
     None \<Rightarrow> False
   | Some s \<Rightarrow>
       finishedCount s = 4 \<and> gpc (gen s) = G_blocked \<and> fault s = None \<and>
       (\<forall>es s'. run es s = Some s' \<and> Spurious Generator \<notin> set es \<longrightarrow>
          finishedCount s' = 4 \<and> gpc (gen s') = G_blocked \<and>
          list_all (\<lambda>w. awaiting (wpc w)) (workers s'))"
proof -
  from eval_lost_wakeup obtain s where
    "run lost_wakeup_schedule init = Some s \<and> gpc (gen s) = G_blocked \<and> finishedCount s = 4 \<and>
     map wpc (workers s) = [W_blocked, W_blocked, W_blocked, W_blocked] \<and>
     cv_mtx s = None \<and> fault s = None" ..
  then have r: "run lost_wakeup_schedule init = Some s"
    and g: "gpc (gen s) = G_blocked" and c: "finishedCount s = 4"
    and w: "map wpc (workers s) = [W_blocked, W_blocked, W_blocked, W_blocked]"
    and f: "fault s = None"
    by simp_all
  from w have "set (map wpc (workers s)) = {W_blocked}" by simp
  then have "\<forall>w \<in> set (workers s). wpc w = W_blocked" by auto
  with c g have u: "unnoticed s" by (simp add: unnoticed_def list_all_iff)
  have "\<forall>es s'. run es s = Some s' \<and> Spurious Generator \<notin> set es \<longrightarrow>
          finishedCount s' = 4 \<and> gpc (gen s') = G_blocked \<and>
          list_all (\<lambda>w. awaiting (wpc w)) (workers s')"
    using unnoticed_run [OF u] by (auto simp: unnoticed_def)
  with r g c f show ?thesis by simp
qed

text \<open>
  The theorem at a spurious wake-up of worker 0, which takes the mutex, finds
  \<open>finishedCount == 0\<close> false and blocks again.
\<close>

theorem count_stays_four_after_lost_wakeup_witness:
  "case run lost_wakeup_schedule init of
     None \<Rightarrow> False
   | Some s \<Rightarrow>
       (case run [Spurious (Worker 0), Exec (Worker 0), Exec (Worker 0)] s of
          None \<Rightarrow> False
        | Some s' \<Rightarrow>
            finishedCount s' = 4 \<and> gpc (gen s') = G_blocked \<and>
            list_all (\<lambda>w. awaiting (wpc w)) (workers s'))"
proof -
  from eval_lost_wakeup obtain s where
    "run lost_wakeup_schedule init = Some s \<and> gpc (gen s) = G_blocked \<and> finishedCount s = 4 \<and>
     map wpc (workers s) = [W_blocked, W_blocked, W_blocked, W_blocked] \<and>
     cv_mtx s = None \<and> fault s = None" ..
  then have r: "run lost_wakeup_schedule init = Some s"
    and c: "finishedCount s = 4"
    and w: "map wpc (workers s) = [W_blocked, W_blocked, W_blocked, W_blocked]"
    and m: "cv_mtx s = None" and f: "fault s = None"
    by simp_all
  from w have l: "length (workers s) = 4" and w0: "wpc (workers s ! 0) = W_blocked"
    by (auto simp: map_eq_Cons_conv)
  from l w0 c m f obtain s' where
    r': "run [Spurious (Worker 0), Exec (Worker 0), Exec (Worker 0)] s = Some s'"
    by (simp add: step_def multiplicationThread_def blocked_def wake_def set_worker_def Let_def)
  have n: "Spurious Generator \<notin> set [Spurious (Worker 0), Exec (Worker 0), Exec (Worker 0)]"
    by simp
  from count_stays_four_after_lost_wakeup r
  have "\<forall>es s'. run es s = Some s' \<and> Spurious Generator \<notin> set es \<longrightarrow>
          finishedCount s' = 4 \<and> gpc (gen s') = G_blocked \<and>
          list_all (\<lambda>w. awaiting (wpc w)) (workers s')"
    by simp
  with r' n have "finishedCount s' = 4 \<and> gpc (gen s') = G_blocked \<and>
          list_all (\<lambda>w. awaiting (wpc w)) (workers s')"
    by blast
  with r r' show ?thesis by simp
qed

subsection \<open>C6: the size doubles with every generation\<close>



subsection \<open>C7: one slot contents per round\<close>

text \<open>
  Claim C7: in every reachable state, every worker that is computing holds in \<open>N_local\<close> the current
  \<open>currentN\<close>, the global matrices are the matrices of that dimension, and the generator is not
  regenerating; so all workers that compute at the same time see the same slot. And along any
  schedule without a write to the slot, the slot at the end is the slot at the start: reading it
  again in the same round gives the same data.
\<close>

theorem same_slot_within_round:
  assumes "run evs init = Some s"
  shows "(\<forall>w \<in> set (workers s). computing (wpc w) \<longrightarrow>
            N_local w = currentN s \<and> slot_ok s \<and> \<not> regenerating (gpc (gen s))) \<and>
         (\<forall>es s'. run es s = Some s' \<and> slot_writes es s = 0 \<longrightarrow> slot s' = slot s)"
proof -
  from reachable_invariant [OF assms] have i: "invariant s" .
  then have l: "length (workers s) = 4" and r: "inv_regen s" and lo: "inv_locals s"
    and sl: "inv_slot s"
    by (simp_all add: invariant_def inv_mtx_def)
  have "\<forall>j<4. computing (wpc (workers s ! j)) \<longrightarrow>
            N_local (workers s ! j) = currentN s \<and> slot_ok s \<and> \<not> regenerating (gpc (gen s))"
  proof (intro allI impI)
    fix j :: nat assume j: "j < 4" and c: "computing (wpc (workers s ! j))"
    from c have "\<not> awaiting (wpc (workers s ! j))" by (cases "wpc (workers s ! j)") simp_all
    from not_awaiting_stable [OF r j this] sl
    have "slot_ok s" and "\<not> regenerating (gpc (gen s))" by (simp_all add: inv_slot_def)
    moreover from lo j c have "N_local (workers s ! j) = currentN s" by (simp add: inv_locals_def)
    ultimately show "N_local (workers s ! j) = currentN s \<and> slot_ok s \<and>
        \<not> regenerating (gpc (gen s))" by simp
  qed
  with l have "\<forall>w \<in> set (workers s). computing (wpc w) \<longrightarrow>
            N_local w = currentN s \<and> slot_ok s \<and> \<not> regenerating (gpc (gen s))"
    by (rule workers_ball)
  moreover have "\<forall>es s'. run es s = Some s' \<and> slot_writes es s = 0 \<longrightarrow> slot s' = slot s"
    using slot_writes_run by blast
  ultimately show ?thesis by blast
qed

text \<open>
  The theorem after the first step of worker 0, followed by a step of worker 1.
\<close>

theorem same_slot_within_round_witness:
  "case run [Exec (Worker 0)] init of
     None \<Rightarrow> False
   | Some s \<Rightarrow>
       (case run [Exec (Worker 1)] s of
          None \<Rightarrow> False
        | Some s' \<Rightarrow>
            computing (wpc (workers s ! 0)) \<and> N_local (workers s ! 0) = currentN s \<and>
            slot_writes [Exec (Worker 1)] s = 0 \<and> slot s' = slot s \<and> slot_ok s)"
proof -
  from eval_first_read obtain s where
    "run [Exec (Worker 0)] init = Some s \<and> wpc (workers s ! 0) = W_alloc \<and>
     length (workers s) = 4 \<and> currentN s = 10 \<and> fault s = None \<and>
     wpc (workers s ! 1) = W_read" ..
  then have r: "run [Exec (Worker 0)] init = Some s" and p: "wpc (workers s ! 0) = W_alloc"
    and l: "length (workers s) = 4" and f: "fault s = None" and p1: "wpc (workers s ! 1) = W_read"
    by simp_all
  from l f p1 obtain s' where st: "step (Exec (Worker 1)) s = Some s'"
    by (simp add: step_def thread_defs)
  then have r': "run [Exec (Worker 1)] s = Some s'" by simp
  from st have z: "slot_writes [Exec (Worker 1)] s = 0" by (simp add: slot_write_def)
  from l have m: "workers s ! 0 \<in> set (workers s)" by simp
  from p have c: "computing (wpc (workers s ! 0))" by simp
  note t = same_slot_within_round [OF r]
  from t m c have "N_local (workers s ! 0) = currentN s" and "slot_ok s" by blast+
  moreover from t r' z have "slot s' = slot s" by blast
  ultimately show ?thesis using r r' c z by simp
qed

subsection \<open>C8: there is not always a next round\<close>

text \<open>
  Claim C8 says that the two loops have no terminal state, that after every round there is a next
  one, and that the process never exits. No thread ever leaves its loop (this is proved in the
  last section), but a next round is not guaranteed, although the comments in lines 75, 113 and
  136 expect one: the barrier can be overtaken. After \<open>notify_all\<close> the woken workers compete for
  the mutex; along \<open>overtake_schedule\<close> worker 0 wins, finishes its next iteration and increments
  \<open>finishedCount\<close> before the others have re-evaluated \<open>finishedCount == 0\<close>. The others block
  again, and the counter, now 1, can never reach 4. The theorem evaluates the program on this
  schedule: one generation has taken place, and from the state reached every schedule, spurious
  wake-ups included, leaves every worker inside its wait and the generator at its wait, without
  another doubling.
\<close>

theorem barrier_can_be_overtaken:
  "case run overtake_schedule init of
     None \<Rightarrow> False
   | Some s \<Rightarrow>
       doublings overtake_schedule init = 1 \<and>
       finishedCount s = 1 \<and> gpc (gen s) = G_blocked \<and>
       map wpc (workers s) = [W_blocked, W_blocked, W_blocked, W_blocked] \<and>
       cv_mtx s = None \<and> fault s = None \<and>
       (\<forall>es s'. run es s = Some s' \<longrightarrow> starved s' \<and> doublings es s = 0)"
proof -
  from eval_overtake obtain s where
    "run overtake_schedule init = Some s \<and> gpc (gen s) = G_blocked \<and> finishedCount s = 1 \<and>
     map wpc (workers s) = [W_blocked, W_blocked, W_blocked, W_blocked] \<and>
     cv_mtx s = None \<and> fault s = None \<and> currentN s = 20" ..
  then have r: "run overtake_schedule init = Some s" and g: "gpc (gen s) = G_blocked"
    and c: "finishedCount s = 1"
    and w: "map wpc (workers s) = [W_blocked, W_blocked, W_blocked, W_blocked]"
    and m: "cv_mtx s = None" and f: "fault s = None" and n: "currentN s = 20"
    by simp_all
  from w have "set (map wpc (workers s)) = {W_blocked}" by simp
  then have "\<forall>w \<in> set (workers s). wpc w = W_blocked" by auto
  with c g have st: "starved s" by (simp add: starved_def list_all_iff)
  with starved_run starved_no_doubling
  have "\<forall>es s'. run es s = Some s' \<longrightarrow> starved s' \<and> doublings es s = 0" by blast
  with r g c w m f one_doubling [OF r g n] show ?thesis by simp
qed

text \<open>
  The theorem at a spurious wake-up of the generator, which takes the mutex, finds
  \<open>finishedCount == 4\<close> false and blocks again.
\<close>

theorem barrier_can_be_overtaken_witness:
  "case run overtake_schedule init of
     None \<Rightarrow> False
   | Some s \<Rightarrow>
       (case run [Spurious Generator, Exec Generator, Exec Generator] s of
          None \<Rightarrow> False
        | Some s' \<Rightarrow>
            starved s' \<and> gpc (gen s') = G_blocked \<and> finishedCount s' = 1 \<and>
            doublings [Spurious Generator, Exec Generator, Exec Generator] s = 0)"
proof -
  from barrier_can_be_overtaken obtain s where r: "run overtake_schedule init = Some s"
    and g: "gpc (gen s) = G_blocked" and c: "finishedCount s = 1" and m: "cv_mtx s = None"
    and f: "fault s = None"
    and a: "\<forall>es s'. run es s = Some s' \<longrightarrow> starved s' \<and> doublings es s = 0"
    by (auto split: option.splits)
  from g c m f obtain s' where r': "run [Spurious Generator, Exec Generator, Exec Generator] s = Some s'"
    and g': "gpc (gen s') = G_blocked" and c': "finishedCount s' = 1"
    by (simp add: step_def matrixGeneratorThread_def blocked_def wake_def Let_def)
  from a r' have "starved s'"
    and "doublings [Spurious Generator, Exec Generator, Exec Generator] s = 0" by blast+
  with r r' g' c' show ?thesis by simp
qed

subsection \<open>C9: \<open>multiplyMatrices\<close> computes the matrix product\<close>

text \<open>
  Claim C9, as amended. The claim names a precondition for \<open>A\<close> and \<open>B\<close> only. Three more are needed:
  \<open>C\<close> must have the shape too, since the function writes \<open>C[i][j]\<close>; \<open>C\<close> must not be the same
  object as \<open>A\<close> or \<open>B\<close>, since otherwise line 37 overwrites entries that line 35 reads later; and
  no product and no partial sum may overflow, since line 35 computes in \<open>int\<close>. Under these
  preconditions \<open>multiplyMatrices\<close> returns, changes no object but \<open>C\<close>, keeps the shape of \<open>C\<close>, and
  sets \<open>C[i][j]\<close> to the sum over \<open>k < N\<close> of \<open>A[i][k] * B[k][j]\<close> for all \<open>i, j < N\<close>; where \<open>A\<close> is all
  ones and \<open>B\<close> all twos, this is \<open>2 * N\<close>. The theorem is about the function on references, with
  \<open>A\<close>, \<open>B\<close> and \<open>C\<close> the objects at the addresses \<open>a\<close>, \<open>b\<close> and \<open>c\<close>.
\<close>

theorem multiplyMatrices_product:
  assumes "0 \<le> N" and "c \<noteq> a" and "c \<noteq> b"
    and "dims_ok (st a) N" and "dims_ok (st b) N" and "dims_ok (st c) N"
    and "\<forall>i j. int i < N \<and> int j < N \<longrightarrow> no_overflow (st a) (st b) i j (nat N)"
  shows "\<exists>C'. multiplyMatrices_ref a b c N st = Inr (st(c := C')) \<and>
     map length C' = map length (st c) \<and>
     (\<forall>i j. int i < N \<and> int j < N \<longrightarrow>
        sint (C' ! i ! j) = (\<Sum>k<nat N. sint (st a ! i ! k) * sint (st b ! k ! j)) \<and>
        ((\<forall>k. int k < N \<longrightarrow> st a ! i ! k = 1 \<and> st b ! k ! j = 2) \<longrightarrow>
           sint (C' ! i ! j) = 2 * N))"
proof -
  from multiplyMatrices_Some [OF assms(4,5,6)] obtain C' where
    m: "multiplyMatrices (st a) (st b) (st c) N = Some C'"
    and sh: "map length C' = map length (st c)"
    and v: "\<forall>i j. int i < N \<and> int j < N \<longrightarrow>
        C' ! i ! j = (\<Sum>k<nat N. st a ! i ! k * st b ! k ! j)"
    by blast
  from multiplyMatrices_ref_eq [OF m assms(2,3,7)]
  have r: "multiplyMatrices_ref a b c N st = Inr (st(c := C'))" .
  have "\<forall>i j. int i < N \<and> int j < N \<longrightarrow>
        sint (C' ! i ! j) = (\<Sum>k<nat N. sint (st a ! i ! k) * sint (st b ! k ! j)) \<and>
        ((\<forall>k. int k < N \<longrightarrow> st a ! i ! k = 1 \<and> st b ! k ! j = 2) \<longrightarrow>
           sint (C' ! i ! j) = 2 * N)"
  proof (intro allI impI conjI)
    fix i j assume ij: "int i < N \<and> int j < N"
    with assms(7) have "no_overflow (st a) (st b) i j (nat N)" by blast
    from sint_fits [OF dot_fits_total [OF this]] v ij
    show e: "sint (C' ! i ! j) = (\<Sum>k<nat N. sint (st a ! i ! k) * sint (st b ! k ! j))"
      by (simp add: word_dot) (simp add: dot_def)
    assume f: "\<forall>k. int k < N \<longrightarrow> st a ! i ! k = 1 \<and> st b ! k ! j = 2"
    have "(\<Sum>k<nat N. sint (st a ! i ! k) * sint (st b ! k ! j)) = (\<Sum>k<nat N. 2)"
    proof (rule sum.cong)
      fix k assume "k \<in> {..<nat N}"
      then have "int k < N" by simp
      with f show "sint (st a ! i ! k) * sint (st b ! k ! j) = 2" by simp
    qed simp
    also from assms(1) have "\<dots> = 2 * N" by simp
    finally show "sint (C' ! i ! j) = 2 * N" using e by simp
  qed
  with r sh show ?thesis by blast
qed

text \<open>
  The theorem at 2 x 2 matrices of ones and twos, in three objects.
\<close>

theorem multiplyMatrices_product_witness:
  "case multiplyMatrices_ref 0 1 2 2 (store_of [[[1, 1], [1, 1]], [[2, 2], [2, 2]], [[0, 0], [0, 0]]]) of
     Inl u \<Rightarrow> False
   | Inr st' \<Rightarrow>
       sint (st' 2 ! 0 ! 0) = 4 \<and> sint (st' 2 ! 0 ! 1) = 4 \<and> sint (st' 2 ! 1 ! 0) = 4 \<and>
       sint (st' 2 ! 1 ! 1) = 4 \<and> map length (st' 2) = [2, 2] \<and>
       st' 0 = [[1, 1], [1, 1]] \<and> st' 1 = [[2, 2], [2, 2]]"
proof -
  let ?st = "store_of [[[1, 1], [1, 1]], [[2, 2], [2, 2]], [[0, 0], [0, 0]]]"
  have s: "?st 0 = [[1, 1], [1, 1]]" "?st 1 = [[2, 2], [2, 2]]" "?st (2::nat) = [[0, 0], [0, 0]]"
    by (simp_all add: store_of_def)
  have d: "dims_ok (?st 0) 2" "dims_ok (?st 1) 2" "dims_ok (?st 2) 2"
    unfolding s by (simp_all add: dims_ok_def)
  have ones: "?st 0 ! i ! k = 1 \<and> ?st 1 ! k ! j = 2" if "i < 2" "j < 2" "k < 2" for i j k
    using that unfolding s by (auto simp: less_2_cases_iff)
  have n: "\<forall>i j. int i < 2 \<and> int j < 2 \<longrightarrow> no_overflow (?st 0) (?st 1) i j (nat 2)"
  proof (intro allI impI)
    fix i j assume "int i < 2 \<and> int j < 2"
    then have ij: "i < 2" "j < 2" by simp_all
    have "int_fits (sint (?st 0 ! i ! k) * sint (?st 1 ! k ! j)) \<and>
          int_fits (dot (?st 0) (?st 1) i j (Suc k))" if "k < 2" for k
    proof -
      from that have "\<forall>l<Suc k. l < 2" by auto
      with ones [OF ij] have "dot (?st 0) (?st 1) i j (Suc k) = (\<Sum>l<Suc k. 2)"
        unfolding dot_def by (intro sum.cong) auto
      with ones [OF ij that] that show ?thesis by (simp add: int_fits_def)
    qed
    then show "no_overflow (?st 0) (?st 1) i j (nat 2)" by (simp add: no_overflow_def)
  qed
  from multiplyMatrices_product [of 2 2 0 1 ?st, OF _ _ _ d n] obtain C' where
    m: "multiplyMatrices_ref 0 1 2 2 ?st = Inr (?st(2 := C'))"
    and sh: "map length C' = map length (?st 2)"
    and v: "\<forall>i j. int i < 2 \<and> int j < 2 \<longrightarrow>
        sint (C' ! i ! j) = (\<Sum>k<nat 2. sint (?st 0 ! i ! k) * sint (?st 1 ! k ! j)) \<and>
        ((\<forall>k. int k < 2 \<longrightarrow> ?st 0 ! i ! k = 1 \<and> ?st 1 ! k ! j = 2) \<longrightarrow>
           sint (C' ! i ! j) = 2 * 2)"
    by auto
  have e: "sint (C' ! i ! j) = 4" if "i < 2" "j < 2" for i j
  proof -
    from ones [OF that] have "\<forall>k. int k < 2 \<longrightarrow> ?st 0 ! i ! k = 1 \<and> ?st 1 ! k ! j = 2" by simp
    with v that show ?thesis by simp
  qed
  from sh have sh': "map length C' = [2, 2]" unfolding s by simp
  have "(?st(2 := C')) 0 = [[1, 1], [1, 1]]" and "(?st(2 := C')) 1 = [[2, 2], [2, 2]]"
    and "(?st(2 := C')) 2 = C'"
    using s by simp_all
  with e [of 0 0] e [of 0 1] e [of 1 0] e [of 1 1] m sh' show ?thesis by simp
qed

text \<open>
  Three calls that satisfy the precondition of the claim. In the first, \<open>C\<close> is empty, and the
  assignment to \<open>C[0][0]\<close> is out of range. In the second, \<open>C\<close> is the object \<open>A\<close>: the entry
  \<open>C[0][1]\<close> becomes 10, while the sum for that entry is 4. In the third, the product of the two
  entries is \<open>2 ^ 32\<close>.
\<close>

theorem multiplyMatrices_product_counterexample:
  "multiplyMatrices_ref 0 1 2 1 (store_of [[[1]], [[2]], []]) = Inl IndexOutOfRange \<and>
   (case multiplyMatrices_ref 0 1 0 2 (store_of [[[1, 1], [1, 1]], [[2, 2], [2, 2]]]) of
      Inl u \<Rightarrow> False
    | Inr st' \<Rightarrow>
        st' 0 = [[4, 10], [4, 10]] \<and> dot [[1, 1], [1, 1]] [[2, 2], [2, 2]] 0 1 2 = 4) \<and>
   multiplyMatrices_ref 0 1 2 1 (store_of [[[65536]], [[65536]], [[0]]]) = Inl SignedOverflow"
  by (simp add: multiplyMatrices_ref_def row_loop_ref.simps col_loop_ref.simps
      sum_loop_ref.simps mat_at_def vec_at_def mat_set_def int_fits_def store_of_def dot_def
      lessThan_Suc numeral_2_eq_2)

subsection \<open>C10: the indices of \<open>multiplyMatrices\<close> are in range\<close>

text \<open>
  Claim C10: if \<open>A\<close>, \<open>B\<close> and \<open>C\<close> each have at least \<open>N\<close> rows of at least \<open>N\<close> columns, no index of
  \<open>multiplyMatrices\<close> is out of range. The worker's statement at line 49 builds \<open>C\<close> as the
  \<open>N_local\<close> x \<open>N_local\<close> matrix of zeros, from the value it read in line 46, and that matrix has the
  required shape; with it, the call is in range exactly when \<open>globalA\<close> and \<open>globalB\<close> have at least
  \<open>N_local\<close> rows of at least \<open>N_local\<close> columns when the call is made. The worker's step at line 55
  ends in the fault \<open>OutOfBounds\<close> exactly when one of the three shapes is too small.
\<close>

theorem multiplyMatrices_in_bounds:
  "(dims_ok A N \<and> dims_ok B N \<and> dims_ok C N \<longrightarrow> multiplyMatrices A B C N \<noteq> None) \<and>
   (new_matrix N 0 = Some C \<longrightarrow>
      dims_ok C N \<and>
      (multiplyMatrices A B C N \<noteq> None \<longleftrightarrow> dims_ok A N \<and> dims_ok B N)) \<and>
   (i < length (workers s) \<and> wpc (workers s ! i) = W_alloc \<and>
    multiplicationThread i s = Some s' \<and> fault s' = None \<longrightarrow>
      wpc (workers s' ! i) = W_mult \<and>
      new_matrix (sint (N_local (workers s ! i))) 0 = Some (C_local (workers s' ! i)) \<and>
      N_local (workers s' ! i) = N_local (workers s ! i)) \<and>
   (i < length (workers s) \<and> wpc (workers s ! i) = W_mult \<and> fault s = None \<and>
    multiplicationThread i s = Some s' \<longrightarrow>
      (fault s' = Some OutOfBounds) =
        (\<not> (dims_ok (globalA s) (sint (N_local (workers s ! i))) \<and>
             dims_ok (globalB s) (sint (N_local (workers s ! i))) \<and>
             dims_ok (C_local (workers s ! i)) (sint (N_local (workers s ! i))))))"
proof (intro conjI impI)
  assume "dims_ok A N \<and> dims_ok B N \<and> dims_ok C N"
  then show "multiplyMatrices A B C N \<noteq> None" by (rule multiplyMatrices_iff [THEN iffD2])
next
  assume "new_matrix N 0 = Some C"
  then show "dims_ok C N" by (rule new_matrix_dims)
next
  assume "new_matrix N 0 = Some C"
  then have "dims_ok C N" by (rule new_matrix_dims)
  with multiplyMatrices_iff [of A B C N]
  show "(multiplyMatrices A B C N \<noteq> None) = (dims_ok A N \<and> dims_ok B N)"
    by blast
next
  assume a: "i < length (workers s) \<and> wpc (workers s ! i) = W_alloc \<and>
    multiplicationThread i s = Some s' \<and> fault s' = None"
  then show "wpc (workers s' ! i) = W_mult"
    by (auto simp: thread_defs split: option.splits)
  from a show "new_matrix (sint (N_local (workers s ! i))) 0 = Some (C_local (workers s' ! i))"
    by (auto simp: thread_defs split: option.splits)
  from a show "N_local (workers s' ! i) = N_local (workers s ! i)"
    by (auto simp: thread_defs split: option.splits)
next
  let ?n = "sint (N_local (workers s ! i))"
  assume a: "i < length (workers s) \<and> wpc (workers s ! i) = W_mult \<and> fault s = None \<and>
    multiplicationThread i s = Some s'"
  show "(fault s' = Some OutOfBounds) =
        (\<not> (dims_ok (globalA s) ?n \<and> dims_ok (globalB s) ?n \<and>
             dims_ok (C_local (workers s ! i)) ?n))"
  proof (cases "multiplyMatrices (globalA s) (globalB s) (C_local (workers s ! i)) ?n")
    case None
    with a have "fault s' = Some OutOfBounds" by (auto simp: thread_defs)
    moreover from None multiplyMatrices_iff [of "globalA s" "globalB s" "C_local (workers s ! i)" ?n]
    have "\<not> (dims_ok (globalA s) ?n \<and> dims_ok (globalB s) ?n \<and>
             dims_ok (C_local (workers s ! i)) ?n)" by blast
    ultimately show ?thesis by simp
  next
    case (Some c)
    with a have "fault s' = None" by (auto simp: thread_defs)
    moreover from Some multiplyMatrices_iff [of "globalA s" "globalB s" "C_local (workers s ! i)" ?n]
    have "dims_ok (globalA s) ?n \<and> dims_ok (globalB s) ?n \<and>
             dims_ok (C_local (workers s ! i)) ?n" by simp
    ultimately show ?thesis by simp
  qed
qed

text \<open>
  The theorem at 2 x 2 matrices, and at the worker's allocation in the first iteration.
\<close>

theorem multiplyMatrices_in_bounds_witness:
  "multiplyMatrices [[1, 2], [3, 4]] [[5, 6], [7, 8]] [[0, 0], [0, 0]] 2 \<noteq> None \<and>
   new_matrix 2 0 = Some [[0, 0], [0, 0]] \<and> dims_ok [[0, 0], [0, 0]] 2 \<and>
   dims_ok [[1, 2], [3, 4]] 2 \<and> dims_ok [[5, 6], [7, 8]] 2 \<and>
   (case run [Exec (Worker 0)] init of
      None \<Rightarrow> False
    | Some s \<Rightarrow>
        (case multiplicationThread 0 s of
           None \<Rightarrow> False
         | Some s' \<Rightarrow>
             wpc (workers s ! 0) = W_alloc \<and> fault s' = None \<and> wpc (workers s' ! 0) = W_mult \<and>
             sint (N_local (workers s' ! 0)) = 10 \<and> dims_ok (C_local (workers s' ! 0)) 10))"
proof -
  have d: "dims_ok [[1, 2], [3, 4]] 2 \<and> dims_ok [[5, 6], [7, 8]] 2 \<and> dims_ok [[0, 0], [0, 0]] 2"
    by (simp add: dims_ok_def)
  have n: "new_matrix 2 0 = Some [[0, 0], [0, 0]]"
    by (simp add: new_matrix_def numeral_2_eq_2)
  from multiplyMatrices_in_bounds [of "[[1, 2], [3, 4]]" 2 "[[5, 6], [7, 8]]" "[[0, 0], [0, 0]]"] d n
  have p1: "multiplyMatrices [[1, 2], [3, 4]] [[5, 6], [7, 8]] [[0, 0], [0, 0]] 2 \<noteq> None"
    by blast
  from eval_first_read_locals obtain s where
    "run [Exec (Worker 0)] init = Some s \<and> wpc (workers s ! 0) = W_alloc \<and>
     length (workers s) = 4 \<and> N_local (workers s ! 0) = 10 \<and> fault s = None" ..
  then have r: "run [Exec (Worker 0)] init = Some s" and p: "wpc (workers s ! 0) = W_alloc"
    and l: "length (workers s) = 4" and nl: "N_local (workers s ! 0) = 10" and f: "fault s = None"
    by simp_all
  from p nl f l obtain s' where st: "multiplicationThread 0 s = Some s'" and f': "fault s' = None"
    by (simp add: thread_defs new_matrix_def)
  from l have i: "0 < length (workers s)" by simp
  note t = multiplyMatrices_in_bounds [of _ _ _ _ 0 s s']
  from t i p st f' have w: "wpc (workers s' ! 0) = W_mult"
    and a: "new_matrix (sint (N_local (workers s ! 0))) 0 = Some (C_local (workers s' ! 0))"
    and k: "N_local (workers s' ! 0) = N_local (workers s ! 0)"
    by blast+
  from multiplyMatrices_in_bounds [of _ "sint (N_local (workers s ! 0))" _ "C_local (workers s' ! 0)"] a
  have "dims_ok (C_local (workers s' ! 0)) (sint (N_local (workers s ! 0)))" by blast
  with nl k have "dims_ok (C_local (workers s' ! 0)) 10" "sint (N_local (workers s' ! 0)) = 10"
    by simp_all
  with p1 n d r st p f' w show ?thesis by simp
qed

section \<open>Further properties of the barrier\<close>

text \<open>
  Memory safety of the workers: in no reachable state has \<open>multiplyMatrices\<close> indexed outside a
  vector, and whenever a worker is about to call it (line 55), the call is in range.
\<close>

theorem no_index_out_of_range:
  assumes "run evs init = Some s"
  shows "fault s \<noteq> Some OutOfBounds \<and>
         (\<forall>i<length (workers s). wpc (workers s ! i) = W_mult \<longrightarrow>
            multiplyMatrices (globalA s) (globalB s) (C_local (workers s ! i))
              (sint (N_local (workers s ! i))) \<noteq> None)"
proof -
  from reachable_invariant [OF assms] have i: "invariant s" .
  then have l: "length (workers s) = 4" and r: "inv_regen s" and lo: "inv_locals s"
    and sl: "inv_slot s" and sf: "inv_safe s"
    by (simp_all add: invariant_def inv_mtx_def)
  have "\<forall>j<length (workers s). wpc (workers s ! j) = W_mult \<longrightarrow>
            multiplyMatrices (globalA s) (globalB s) (C_local (workers s ! j))
              (sint (N_local (workers s ! j))) \<noteq> None"
  proof (intro allI impI)
    fix j assume "j < length (workers s)" and p: "wpc (workers s ! j) = W_mult"
    with l have j: "j < 4" by simp
    from p have "\<not> awaiting (wpc (workers s ! j))" by simp
    from not_awaiting_stable [OF r j this] sl have ok: "slot_ok s" by (simp add: inv_slot_def)
    from lo j p have n: "N_local (workers s ! j) = currentN s"
      and c: "C_local (workers s ! j) =
        replicate (nat (sint (N_local (workers s ! j))))
          (replicate (nat (sint (N_local (workers s ! j)))) 0)"
      by (simp_all add: inv_locals_def)
    from ok have pos: "0 \<le> sint (currentN s)"
      and ga: "globalA s = replicate (nat (sint (currentN s))) (replicate (nat (sint (currentN s))) 1)"
      and gb: "globalB s = replicate (nat (sint (currentN s))) (replicate (nat (sint (currentN s))) 2)"
      by (simp_all add: slot_ok_def)
    from c have c': "C_local (workers s ! j) =
        replicate (nat (sint (currentN s))) (replicate (nat (sint (currentN s))) 0)"
      unfolding n .
    from fill_int [OF pos, of 1 2 0]
    show "multiplyMatrices (globalA s) (globalB s) (C_local (workers s ! j))
              (sint (N_local (workers s ! j))) \<noteq> None"
      unfolding n c' ga [symmetric] gb [symmetric] .
  qed
  moreover from sf have "fault s \<noteq> Some OutOfBounds" by (simp add: inv_safe_def)
  ultimately show ?thesis by simp
qed

theorem no_index_out_of_range_witness:
  "case run [Exec (Worker 0), Exec (Worker 0)] init of
     None \<Rightarrow> False
   | Some s \<Rightarrow>
       wpc (workers s ! 0) = W_mult \<and> fault s = None \<and>
       multiplyMatrices (globalA s) (globalB s) (C_local (workers s ! 0))
         (sint (N_local (workers s ! 0))) \<noteq> None"
proof -
  from eval_second_step obtain s where
    "run [Exec (Worker 0), Exec (Worker 0)] init = Some s \<and> wpc (workers s ! 0) = W_mult \<and>
     length (workers s) = 4 \<and> fault s = None \<and> sint (N_local (workers s ! 0)) = 10" ..
  then have r: "run [Exec (Worker 0), Exec (Worker 0)] init = Some s"
    and p: "wpc (workers s ! 0) = W_mult" and l: "length (workers s) = 4" and f: "fault s = None"
    by simp_all
  from l have "0 < length (workers s)" by simp
  with no_index_out_of_range [OF r] p
  have "multiplyMatrices (globalA s) (globalB s) (C_local (workers s ! 0))
         (sint (N_local (workers s ! 0))) \<noteq> None" by blast
  with r p f show ?thesis by simp
qed

text \<open>
  The generator's wait (line 87): it has returned only if \<open>finishedCount\<close> is 4, and when the
  predicate is evaluated the wait returns if the counter is 4 (also when it reached 4 before the
  generator started to wait) and blocks otherwise.
\<close>

theorem generator_wait_returns_at_four:
  assumes "run evs init = Some s"
  shows "(gpc (gen s) = G_unlock \<longrightarrow> finishedCount s = 4) \<and>
         (fault s = None \<and> gpc (gen s) = G_wait \<longrightarrow>
            (\<exists>s'. step (Exec Generator) s = Some s' \<and>
               gpc (gen s') = (if finishedCount s = 4 then G_unlock else G_blocked)))"
proof -
  from reachable_invariant [OF assms] have "inv_regen s" by (simp add: invariant_def)
  then have "gpc (gen s) = G_unlock \<longrightarrow> finishedCount s = 4" by (simp add: inv_regen_def)
  moreover have "fault s = None \<and> gpc (gen s) = G_wait \<longrightarrow>
            (\<exists>s'. step (Exec Generator) s = Some s' \<and>
               gpc (gen s') = (if finishedCount s = 4 then G_unlock else G_blocked))"
    by (simp add: step_def matrixGeneratorThread_def Let_def)
  ultimately show ?thesis by simp
qed

theorem generator_wait_returns_at_four_witness:
  "case run (take 29 ready_schedule) init of
     None \<Rightarrow> False
   | Some s \<Rightarrow>
       (case step (Exec Generator) s of
          None \<Rightarrow> False
        | Some s' \<Rightarrow> gpc (gen s) = G_wait \<and> finishedCount s = 4 \<and> gpc (gen s') = G_unlock)"
proof -
  from eval_at_wait obtain s where
    "run (take 29 ready_schedule) init = Some s \<and> gpc (gen s) = G_wait \<and>
     finishedCount s = 4 \<and> fault s = None" ..
  then have r: "run (take 29 ready_schedule) init = Some s" and g: "gpc (gen s) = G_wait"
    and c: "finishedCount s = 4" and f: "fault s = None"
    by simp_all
  from generator_wait_returns_at_four [OF r] g f c
  obtain s' where "step (Exec Generator) s = Some s'" and "gpc (gen s') = G_unlock" by auto
  with r g c show ?thesis by simp
qed

text \<open>
  The counter and its reset. In every reachable state \<open>finishedCount\<close> lies between 0 and 4. A
  step leaves it unchanged, or is the increment of a worker that owns the mutex, from a value
  below 4, or is the generator's reset to 0, from the value 4, with the generator owning the
  mutex: once the counter is 4, its next change is the reset. From the reset until the mutex is
  released in line 117 the generator owns the mutex, the counter is 0 and every worker is blocked
  on the condition variable or waiting for the mutex; and \<open>notify_all\<close> in line 116 unblocks every
  worker. (That the reset is reached is another matter; see C1 and C5.)
\<close>

theorem finishedCount_range_and_reset:
  assumes "run evs init = Some s"
  shows "0 \<le> sint (finishedCount s) \<and> sint (finishedCount s) \<le> 4 \<and>
         (\<forall>e s'. step e s = Some s' \<longrightarrow>
            finishedCount s' = finishedCount s \<or>
            (sint (finishedCount s) < 4 \<and> finishedCount s' = finishedCount s + 1 \<and>
             (\<exists>i. e = Exec (Worker i) \<and> cv_mtx s = Some (Worker i))) \<or>
            (finishedCount s = 4 \<and> finishedCount s' = 0 \<and> e = Exec Generator \<and>
             cv_mtx s = Some Generator)) \<and>
         (gpc (gen s) = G_reset \<or> gpc (gen s) = G_notify \<or> gpc (gen s) = G_unlock2 \<longrightarrow>
            cv_mtx s = Some Generator \<and>
            (\<forall>w \<in> set (workers s). wpc w = W_blocked \<or> wpc w = W_woken)) \<and>
         (gpc (gen s) = G_notify \<or> gpc (gen s) = G_unlock2 \<longrightarrow> finishedCount s = 0) \<and>
         (gpc (gen s) = G_notify \<and> fault s = None \<longrightarrow>
            (\<exists>s'. step (Exec Generator) s = Some s' \<and> gpc (gen s') = G_unlock2 \<and>
               finishedCount s' = 0 \<and> cv_mtx s' = Some Generator \<and>
               (\<forall>w \<in> set (workers s'). wpc w = W_woken)))"
proof -
  from reachable_invariant [OF assms] have i: "invariant s" .
  from small_cint [OF count_bound [OF i]]
  have r: "0 \<le> sint (finishedCount s) \<and> sint (finishedCount s) \<le> 4" by auto
  have ch: "\<forall>e s'. step e s = Some s' \<longrightarrow>
            finishedCount s' = finishedCount s \<or>
            (sint (finishedCount s) < 4 \<and> finishedCount s' = finishedCount s + 1 \<and>
             (\<exists>i. e = Exec (Worker i) \<and> cv_mtx s = Some (Worker i))) \<or>
            (finishedCount s = 4 \<and> finishedCount s' = 0 \<and> e = Exec Generator \<and>
             cv_mtx s = Some Generator)"
  proof (intro allI impI)
    fix e s' assume st: "step e s = Some s'"
    from count_change [OF st] consider
      (same) "finishedCount s' = finishedCount s"
      | (inc) j where "e = Exec (Worker j)" "j < length (workers s)"
          "wpc (workers s ! j) = W_inc" "finishedCount s' = finishedCount s + 1"
      | (reset) "e = Exec Generator" "gpc (gen s) = G_reset" "finishedCount s' = 0"
      by blast
    then show "finishedCount s' = finishedCount s \<or>
            (sint (finishedCount s) < 4 \<and> finishedCount s' = finishedCount s + 1 \<and>
             (\<exists>i. e = Exec (Worker i) \<and> cv_mtx s = Some (Worker i))) \<or>
            (finishedCount s = 4 \<and> finishedCount s' = 0 \<and> e = Exec Generator \<and>
             cv_mtx s = Some Generator)"
    proof cases
      case same
      then show ?thesis by simp
    next
      case inc
      from i inc(2) have j4: "j < 4" by (simp add: invariant_def inv_mtx_def)
      from count_before_inc [OF i inc(2,3)] have "unat (finishedCount s) \<le> 3" by simp
      then have "unat (finishedCount s) \<le> 4" by simp
      from small_cint [OF this] \<open>unat (finishedCount s) \<le> 3\<close>
      have "sint (finishedCount s) < 4" by auto
      moreover from lock_holder [OF i] j4 inc(3) have "cv_mtx s = Some (Worker j)" by simp
      ultimately show ?thesis using inc by simp
    next
      case reset
      from i reset(2) have "finishedCount s = 4" by (simp add: invariant_def inv_regen_def)
      moreover from reset_under_lock [OF i] reset(2) have "cv_mtx s = Some Generator" by simp
      ultimately show ?thesis using reset by simp
    qed
  qed
  have z: "gpc (gen s) = G_notify \<or> gpc (gen s) = G_unlock2 \<longrightarrow> finishedCount s = 0"
    using zero_until_release [OF assms] by blast
  have n: "gpc (gen s) = G_notify \<and> fault s = None \<longrightarrow>
            (\<exists>s'. step (Exec Generator) s = Some s' \<and> gpc (gen s') = G_unlock2 \<and>
               finishedCount s' = 0 \<and> cv_mtx s' = Some Generator \<and>
               (\<forall>w \<in> set (workers s'). wpc w = W_woken))"
  proof
    assume a: "gpc (gen s) = G_notify \<and> fault s = None"
    with z have "finishedCount s = 0" by simp
    with notify_all_wakes [OF i] a
    show "\<exists>s'. step (Exec Generator) s = Some s' \<and> gpc (gen s') = G_unlock2 \<and>
               finishedCount s' = 0 \<and> cv_mtx s' = Some Generator \<and>
               (\<forall>w \<in> set (workers s'). wpc w = W_woken)"
      by auto
  qed
  from r ch reset_under_lock [OF i] z n show ?thesis by blast
qed

text \<open>
  The theorem at the state reached by \<open>reset_schedule\<close>, where the generator's next step is the
  reset, and one step later, where three workers are still blocked and \<open>notify_all\<close> unblocks them.
\<close>

theorem finishedCount_range_and_reset_witness:
  "(case run reset_schedule init of
      None \<Rightarrow> False
    | Some s \<Rightarrow>
        (case step (Exec Generator) s of
           None \<Rightarrow> False
         | Some s' \<Rightarrow>
             gpc (gen s) = G_reset \<and> sint (finishedCount s) = 4 \<and> finishedCount s' = 0 \<and>
             cv_mtx s = Some Generator \<and>
             list_all (\<lambda>w. wpc w = W_blocked \<or> wpc w = W_woken) (workers s))) \<and>
   (case run (reset_schedule @ [Exec Generator]) init of
      None \<Rightarrow> False
    | Some s \<Rightarrow>
        (case step (Exec Generator) s of
           None \<Rightarrow> False
         | Some s' \<Rightarrow>
             gpc (gen s) = G_notify \<and> finishedCount s = 0 \<and> finishedCount s' = 0 \<and>
             list_ex (\<lambda>w. wpc w = W_blocked) (workers s) \<and>
             list_all (\<lambda>w. wpc w = W_woken) (workers s') \<and> cv_mtx s' = Some Generator))"
proof -
  from eval_reset obtain s where
    "run reset_schedule init = Some s \<and> gpc (gen s) = G_reset \<and> finishedCount s = 4 \<and>
     map wpc (workers s) = [W_woken, W_blocked, W_blocked, W_blocked] \<and> currentN s = 20 \<and>
     cv_mtx s = Some Generator \<and> fault s = None \<and> length (globalA s) = 20 \<and>
     doublings reset_schedule init = 1" ..
  then have r: "run reset_schedule init = Some s" and g: "gpc (gen s) = G_reset"
    and c: "finishedCount s = 4" and f: "fault s = None"
    by simp_all
  from g f obtain s' where st: "step (Exec Generator) s = Some s'" and c': "finishedCount s' = 0"
    by (simp add: step_def matrixGeneratorThread_def Let_def)
  from finishedCount_range_and_reset [OF r] g
  have "cv_mtx s = Some Generator"
    and "\<forall>w \<in> set (workers s). wpc w = W_blocked \<or> wpc w = W_woken" by simp_all
  with r st g c c' have first: "case run reset_schedule init of
      None \<Rightarrow> False
    | Some s \<Rightarrow>
        (case step (Exec Generator) s of
           None \<Rightarrow> False
         | Some s' \<Rightarrow>
             gpc (gen s) = G_reset \<and> sint (finishedCount s) = 4 \<and> finishedCount s' = 0 \<and>
             cv_mtx s = Some Generator \<and>
             list_all (\<lambda>w. wpc w = W_blocked \<or> wpc w = W_woken) (workers s))"
    by (simp add: list_all_iff)
  from eval_at_notify obtain u where
    "run (reset_schedule @ [Exec Generator]) init = Some u \<and> gpc (gen u) = G_notify \<and>
     fault u = None \<and> finishedCount u = 0 \<and>
     map wpc (workers u) = [W_woken, W_blocked, W_blocked, W_blocked]" ..
  then have ru: "run (reset_schedule @ [Exec Generator]) init = Some u"
    and gu: "gpc (gen u) = G_notify" and fu: "fault u = None"
    and wu: "map wpc (workers u) = [W_woken, W_blocked, W_blocked, W_blocked]"
    by simp_all
  from wu have "W_blocked \<in> set (map wpc (workers u))" by simp
  then obtain w where "w \<in> set (workers u)" and "wpc w = W_blocked" by auto
  then have bu: "list_ex (\<lambda>w. wpc w = W_blocked) (workers u)" unfolding list_ex_iff by blast
  from finishedCount_range_and_reset [OF ru] gu fu
  obtain u' where su: "step (Exec Generator) u = Some u'" and "finishedCount u' = 0"
    and "cv_mtx u' = Some Generator" and "\<forall>w \<in> set (workers u'). wpc w = W_woken"
    and "finishedCount u = 0"
    by auto
  with ru gu bu have "case run (reset_schedule @ [Exec Generator]) init of
      None \<Rightarrow> False
    | Some s \<Rightarrow>
        (case step (Exec Generator) s of
           None \<Rightarrow> False
         | Some s' \<Rightarrow>
             gpc (gen s) = G_notify \<and> finishedCount s = 0 \<and> finishedCount s' = 0 \<and>
             list_ex (\<lambda>w. wpc w = W_blocked) (workers s) \<and>
             list_all (\<lambda>w. wpc w = W_woken) (workers s') \<and> cv_mtx s' = Some Generator)"
    by (simp add: list_all_iff)
  with first show ?thesis by (rule conjI)
qed

text \<open>
  No thread leaves its loop: in every reachable state no worker and not the generator is past its
  \<open>while (true)\<close> loop, so the \<open>join\<close> calls of \<open>main\<close> have not returned; and the last statement of
  each loop body leads back to the first one. (This is a statement about the control flow; it does
  not say that a thread is always able to take its next step, see C1 and C8.)
\<close>

theorem loops_never_exit:
  assumes "run evs init = Some s"
  shows "gpc (gen s) \<noteq> G_done \<and> (\<forall>w \<in> set (workers s). wpc w \<noteq> W_done) \<and>
         \<not> main_returned s \<and>
         (fault s = None \<and> gpc (gen s) = G_unlock2 \<longrightarrow>
            (\<exists>s'. step (Exec Generator) s = Some s' \<and> gpc (gen s') = G_lock)) \<and>
         (\<forall>i<length (workers s). fault s = None \<and> wpc (workers s ! i) = W_unlock \<longrightarrow>
            (\<exists>s'. step (Exec (Worker i)) s = Some s' \<and> wpc (workers s' ! i) = W_read))"
proof -
  from reachable_invariant [OF assms] have l: "length (workers s) = 4" and t: "inv_term s"
    by (simp_all add: invariant_def inv_mtx_def)
  from t have g: "gpc (gen s) \<noteq> G_done" and "\<forall>i<4. wpc (workers s ! i) \<noteq> W_done"
    by (simp_all add: inv_term_def)
  with l have w: "\<forall>w \<in> set (workers s). wpc w \<noteq> W_done" by (intro workers_ball)
  from g have m: "\<not> main_returned s" by (simp add: main_returned_def)
  have a: "fault s = None \<and> gpc (gen s) = G_unlock2 \<longrightarrow>
            (\<exists>s'. step (Exec Generator) s = Some s' \<and> gpc (gen s') = G_lock)"
    by (simp add: step_def matrixGeneratorThread_def Let_def loop_forever_def)
  have b: "\<forall>i<length (workers s). fault s = None \<and> wpc (workers s ! i) = W_unlock \<longrightarrow>
            (\<exists>s'. step (Exec (Worker i)) s = Some s' \<and> wpc (workers s' ! i) = W_read)"
    by (simp add: step_def thread_defs)
  from g w m a b show ?thesis by blast
qed

text \<open>
  The theorem at the end of the generator's first round, and at the end of a worker's first
  iteration.
\<close>

theorem loops_never_exit_witness:
  "(case run (reset_schedule @ [Exec Generator, Exec Generator]) init of
      None \<Rightarrow> False
    | Some s \<Rightarrow>
        (case step (Exec Generator) s of
           None \<Rightarrow> False
         | Some s' \<Rightarrow>
             gpc (gen s) = G_unlock2 \<and> gpc (gen s') = G_lock \<and> \<not> main_returned s \<and>
             list_all (\<lambda>w. wpc w \<noteq> W_done) (workers s))) \<and>
   (case run (take 43 overtake_schedule) init of
      None \<Rightarrow> False
    | Some s \<Rightarrow>
        (case step (Exec (Worker 0)) s of
           None \<Rightarrow> False
         | Some s' \<Rightarrow> wpc (workers s ! 0) = W_unlock \<and> wpc (workers s' ! 0) = W_read))"
proof -
  from eval_release obtain s where
    "run (reset_schedule @ [Exec Generator, Exec Generator]) init = Some s \<and>
     gpc (gen s) = G_unlock2 \<and> fault s = None \<and> finishedCount s = 0 \<and>
     map wpc (workers s) = [W_woken, W_woken, W_woken, W_woken]" ..
  then have r: "run (reset_schedule @ [Exec Generator, Exec Generator]) init = Some s"
    and g: "gpc (gen s) = G_unlock2" and f: "fault s = None"
    by simp_all
  note t = loops_never_exit [OF r]
  from t have "fault s = None \<and> gpc (gen s) = G_unlock2 \<longrightarrow>
      (\<exists>s'. step (Exec Generator) s = Some s' \<and> gpc (gen s') = G_lock)"
    by (elim conjE) assumption
  with g f obtain s' where st: "step (Exec Generator) s = Some s'" and g': "gpc (gen s') = G_lock"
    by blast
  from t have "\<not> main_returned s" and "\<forall>w \<in> set (workers s). wpc w \<noteq> W_done"
    by simp_all
  with r st g g' have first: "case run (reset_schedule @ [Exec Generator, Exec Generator]) init of
      None \<Rightarrow> False
    | Some s \<Rightarrow>
        (case step (Exec Generator) s of
           None \<Rightarrow> False
         | Some s' \<Rightarrow>
             gpc (gen s) = G_unlock2 \<and> gpc (gen s') = G_lock \<and> \<not> main_returned s \<and>
             list_all (\<lambda>w. wpc w \<noteq> W_done) (workers s))"
    by (simp add: list_all_iff)
  from eval_worker_unlock obtain u where
    "run (take 43 overtake_schedule) init = Some u \<and> wpc (workers u ! 0) = W_unlock \<and>
     length (workers u) = 4 \<and> fault u = None \<and> gpc (gen u) = G_lock" ..
  then have ru: "run (take 43 overtake_schedule) init = Some u"
    and pu: "wpc (workers u ! 0) = W_unlock" and lu: "length (workers u) = 4"
    and fu: "fault u = None"
    by simp_all
  from loops_never_exit [OF ru]
  have "\<forall>i<length (workers u). fault u = None \<and> wpc (workers u ! i) = W_unlock \<longrightarrow>
      (\<exists>s'. step (Exec (Worker i)) u = Some s' \<and> wpc (workers s' ! i) = W_read)"
    by (elim conjE) assumption
  with lu fu pu obtain u' where "step (Exec (Worker 0)) u = Some u'"
    and "wpc (workers u' ! 0) = W_read"
    by force
  with ru pu have "case run (take 43 overtake_schedule) init of
      None \<Rightarrow> False
    | Some s \<Rightarrow>
        (case step (Exec (Worker 0)) s of
           None \<Rightarrow> False
         | Some s' \<Rightarrow> wpc (workers s ! 0) = W_unlock \<and> wpc (workers s' ! 0) = W_read)"
    by simp
  with first show ?thesis by (rule conjI)
qed

end
